theory Spec2Isabelle
  imports Complex_Main "HOL-Library.Multiset" "HOL-Library.Product_Lexorder" "HOL-Library.Log_Nat"
begin

section \<open>Arrays and Python errors\<close>

text \<open>
  The notebook computes with two-dimensional numpy arrays of complex numbers. An array is
  modelled as the list of its rows. The entries of the arrays are exact complex numbers
  in the functions of the first sections, which say what formula the code evaluates; the
  numbers that decide a branch or an error (the quotient \<open>N / K\<close>, the thresholds
  \<open>1/3\<close> and \<open>2/3\<close>) are the double precision numbers of the source, and the section on
  double precision evaluates \<open>getSnapshot\<close> with every operation rounded. Every exception
  that a modelled Python or numpy call can raise is a value of \<open>py_error\<close>.
\<close>

datatype py_error =
  ValueError | ZeroDivisionError | OverflowError | TypeError | IndexError | KeyError

type_synonym matrix = "complex list list"

definition bind_err :: "py_error + 'a \<Rightarrow> ('a \<Rightarrow> py_error + 'b) \<Rightarrow> py_error + 'b" where
  "bind_err m f = (case m of Inl e \<Rightarrow> Inl e | Inr x \<Rightarrow> f x)"

fun map_err :: "('a \<Rightarrow> py_error + 'b) \<Rightarrow> 'a list \<Rightarrow> py_error + 'b list" where
  "map_err f [] = Inr []"
| "map_err f (x # xs) =
     (case f x of Inl e \<Rightarrow> Inl e
      | Inr y \<Rightarrow> (case map_err f xs of Inl e \<Rightarrow> Inl e | Inr ys \<Rightarrow> Inr (y # ys)))"

definition ncols :: "'a list list \<Rightarrow> nat" where
  "ncols A = (case A of [] \<Rightarrow> 0 | r # _ \<Rightarrow> length r)"

definition is_mat :: "nat \<Rightarrow> nat \<Rightarrow> matrix \<Rightarrow> bool" where
  "is_mat r c A = (length A = r \<and> list_all (\<lambda>row. length row = c) A)"

text \<open>numpy's broadcasting rule for one axis, and the stretching of an axis of length 1.\<close>

definition bdim :: "nat \<Rightarrow> nat \<Rightarrow> nat option" where
  "bdim a b = (if a = b then Some a else if a = 1 then Some b
               else if b = 1 then Some a else None)"

definition stretch :: "nat \<Rightarrow> 'a list \<Rightarrow> 'a list" where
  "stretch k xs = (if length xs = k then xs else replicate k (hd xs))"

definition elementwise ::
  "('a \<Rightarrow> 'a \<Rightarrow> 'a) \<Rightarrow> 'a list list \<Rightarrow> 'a list list \<Rightarrow> py_error + 'a list list" where
  "elementwise f A B =
     (case (bdim (length A) (length B), bdim (ncols A) (ncols B)) of
        (Some r, Some c) \<Rightarrow>
          Inr (map2 (\<lambda>ra rb. map2 f (stretch c ra) (stretch c rb)) (stretch r A) (stretch r B))
      | _ \<Rightarrow> Inl ValueError)"

definition np_add :: "matrix \<Rightarrow> matrix \<Rightarrow> py_error + matrix" where
  "np_add = elementwise (+)"

definition np_sub :: "matrix \<Rightarrow> matrix \<Rightarrow> py_error + matrix" where
  "np_sub = elementwise (-)"

definition scale :: "complex \<Rightarrow> matrix \<Rightarrow> matrix" where
  "scale c A = map (map (\<lambda>z. c * z)) A"

definition divide_by :: "matrix \<Rightarrow> complex \<Rightarrow> matrix" where
  "divide_by A c = map (map (\<lambda>z. z / c)) A"

definition eye :: "nat \<Rightarrow> matrix" where
  "eye d = map (\<lambda>i. map (\<lambda>j. if i = j then 1 else 0) [0..<d]) [0..<d]"

definition column :: "'a list list \<Rightarrow> nat \<Rightarrow> 'a list" where
  "column B j = map (\<lambda>row. row ! j) B"

definition dot :: "matrix \<Rightarrow> matrix \<Rightarrow> py_error + matrix" where
  "dot A B =
     (if ncols A = length B
      then Inr (map (\<lambda>row. map (\<lambda>j. sum_list (map2 (*) row (column B j))) [0..<ncols B]) A)
      else Inl ValueError)"

definition conjT :: "matrix \<Rightarrow> matrix" where
  "conjT A = map (\<lambda>j. map cnj (column A j)) [0..<ncols A]"

definition kron :: "matrix \<Rightarrow> matrix \<Rightarrow> matrix" where
  "kron A B =
     concat (map (\<lambda>ra. map (\<lambda>rb. concat (map (\<lambda>a. map (\<lambda>b. a * b) rb) ra)) B) A)"

definition trace :: "matrix \<Rightarrow> complex" where
  "trace A = (\<Sum>i<min (length A) (ncols A). A ! i ! i)"

section \<open>Double precision quotients\<close>

text \<open>
  Python's \<open>a / b\<close> on integers is the double nearest to the exact quotient, a tie going to
  the even mantissa; it raises \<open>ZeroDivisionError\<close> for \<open>b = 0\<close> and \<open>OverflowError\<close> when
  the rounded quotient is beyond the doubles. \<open>nearest_even a b\<close> is the integer nearest
  to \<open>a / b\<close>; \<open>quotient_exponent a b\<close> is the exponent \<open>e\<close> with \<open>2\<^sup>e \<le> a / b < 2\<^sup>e\<^sup>+\<^sup>1\<close>;
  \<open>double_parts a b\<close> is the mantissa \<open>m\<close> and the shift \<open>s\<close> of the double \<open>m / 2\<^sup>s\<close> nearest
  to \<open>a / b\<close> for positive \<open>a\<close> and \<open>b\<close>: 53 bits, or fewer below \<open>2\<^sup>-\<^sup>1\<^sup>0\<^sup>2\<^sup>2\<close>.
\<close>

definition nearest_even :: "int \<Rightarrow> int \<Rightarrow> int" where
  "nearest_even a b =
     (let q = a div b; r = a mod b
      in if 2 * r < b then q else if b < 2 * r then q + 1 else if even q then q else q + 1)"

definition quotient_exponent :: "int \<Rightarrow> int \<Rightarrow> int" where
  "quotient_exponent a b =
     (let d = bitlen a - bitlen b
      in if b * 2 ^ nat d \<le> a * 2 ^ nat (- d) then d else d - 1)"

definition double_parts :: "int \<Rightarrow> int \<Rightarrow> int \<times> int" where
  "double_parts a b =
     (let e = max (quotient_exponent a b) (- 1022); s = 52 - e
      in (nearest_even (a * 2 ^ nat s) (b * 2 ^ nat (- s)), s))"

definition double_value :: "int \<times> int \<Rightarrow> rat" where
  "double_value p = (case p of (m, s) \<Rightarrow> of_int (m * 2 ^ nat (- s)) / of_int (2 ^ nat s))"

definition true_divide :: "int \<Rightarrow> int \<Rightarrow> py_error + rat" where
  "true_divide N K =
     (if K = 0 then Inl ZeroDivisionError
      else if N = 0 then Inr 0
      else case double_parts \<bar>N\<bar> \<bar>K\<bar> of (m, s) \<Rightarrow>
        if s < - 971 \<or> (s = - 971 \<and> m = 2 ^ 53) then Inl OverflowError
        else Inr (of_int (sgn N * sgn K) * double_value (m, s)))"

text \<open>\<open>int(x)\<close> of a double truncates towards zero.\<close>

definition int_of_double :: "rat \<Rightarrow> int" where
  "int_of_double x = (if 0 \<le> x then \<lfloor>x\<rfloor> else - \<lfloor>- x\<rfloor>)"

text \<open>
  The double nearest to a rational number, for the results of the arithmetic of doubles
  (a result beyond the doubles, numpy's \<open>inf\<close>, does not occur below and is not modelled).
\<close>

definition fl :: "rat \<Rightarrow> rat" where
  "fl x =
     (if x = 0 then 0
      else case quotient_of \<bar>x\<bar> of (a, b) \<Rightarrow>
             (if 0 < x then 1 else - 1) * double_value (double_parts a b))"

text \<open>
  The source's \<open>1/3\<close> and \<open>2/3\<close> are the doubles \<open>true_divide 1 3\<close> and \<open>true_divide 2 3\<close>;
  both are below the fractions they round.
\<close>

definition one_third :: real where
  "one_third = 6004799503160661 / 2 ^ 54"

definition two_thirds :: real where
  "two_thirds = 6004799503160661 / 2 ^ 53"

section \<open>Batches and estimators\<close>

text \<open>
  \<open>range(0, stop, step)\<close>: a zero step raises, a negative step gives the empty range, a
  positive step gives the multiples of the step below \<open>stop\<close>.
\<close>

definition py_range0 :: "nat \<Rightarrow> int \<Rightarrow> py_error + nat list" where
  "py_range0 stop step =
     (if step = 0 then Inl ValueError
      else if step < 0 then Inr []
      else Inr (map (\<lambda>j. j * nat step) [0..<(stop + nat step - 1) div nat step]))"

text \<open>
  \<open>chunks(lst, n)\<close> yields \<open>lst[i:i + n]\<close> for every \<open>i\<close> of \<open>range(0, len(lst), n)\<close>;
  \<open>get_estimators\<close> consumes the generator at once with \<open>list(...)\<close>.
\<close>

definition chunks :: "'a list \<Rightarrow> int \<Rightarrow> py_error + 'a list list" where
  "chunks lst n =
     (case py_range0 (length lst) n of
        Inl e \<Rightarrow> Inl e
      | Inr starts \<Rightarrow> Inr (map (\<lambda>i. take (nat n) (drop i lst)) starts))"

text \<open>
  \<open>int(N / K)\<close> truncates the double \<open>N / K\<close> towards zero and \<open>np.floor(N / K)\<close> rounds
  it down; the division itself can raise.
\<close>

definition int_truediv :: "int \<Rightarrow> int \<Rightarrow> py_error + int" where
  "int_truediv N K = bind_err (true_divide N K) (\<lambda>x. Inr (int_of_double x))"

definition floor_truediv :: "int \<Rightarrow> int \<Rightarrow> py_error + int" where
  "floor_truediv N K = bind_err (true_divide N K) (\<lambda>x. Inr \<lfloor>x\<rfloor>)"

text \<open>
  \<open>reduce(np.add, shade)\<close>: a left fold without initial value, which raises on \<open>[]\<close>.
  The sum is divided by \<open>np.floor(N / K)\<close>; that number is 0 only when \<open>int(N / K)\<close> is
  0 too, and then \<open>chunks\<close> has raised before any batch is summed.
\<close>

fun fold_add :: "matrix \<Rightarrow> matrix list \<Rightarrow> py_error + matrix" where
  "fold_add acc [] = Inr acc"
| "fold_add acc (x # xs) =
     (case np_add acc x of Inl e \<Rightarrow> Inl e | Inr acc' \<Rightarrow> fold_add acc' xs)"

definition reduce_add :: "matrix list \<Rightarrow> py_error + matrix" where
  "reduce_add shade = (case shade of [] \<Rightarrow> Inl TypeError | x # xs \<Rightarrow> fold_add x xs)"

definition estimator_of :: "int \<Rightarrow> int \<Rightarrow> matrix list \<Rightarrow> py_error + matrix" where
  "estimator_of N K shade =
     bind_err (reduce_add shade) (\<lambda>total.
     bind_err (floor_truediv N K) (\<lambda>m. Inr (divide_by total (of_int m))))"

definition get_estimators :: "matrix list \<Rightarrow> int \<Rightarrow> int \<Rightarrow> py_error + matrix list" where
  "get_estimators shadow N K =
     bind_err (int_truediv N K) (\<lambda>n.
     bind_err (chunks shadow n) (\<lambda>shades.
     map_err (estimator_of N K) shades))"


section \<open>Snapshots\<close>

text \<open>
  \<open>int(bitstring, 2)\<close> on a string of binary digits; the empty string and any other
  character raise. (Python also accepts a sign, a \<open>0b\<close> prefix, underscores and blanks,
  none of which occurs in a measurement outcome; they are not modelled.)
\<close>

definition binary_digit :: "char \<Rightarrow> nat option" where
  "binary_digit c = (if c = CHR ''0'' then Some 0 else if c = CHR ''1'' then Some 1 else None)"

fun parse_binary :: "nat \<Rightarrow> string \<Rightarrow> py_error + nat" where
  "parse_binary acc [] = Inr acc"
| "parse_binary acc (c # cs) =
     (case binary_digit c of None \<Rightarrow> Inl ValueError | Some d \<Rightarrow> parse_binary (2 * acc + d) cs)"

definition int_base2 :: "string \<Rightarrow> py_error + nat" where
  "int_base2 s = (if s = [] then Inl ValueError else parse_binary 0 s)"

text \<open>
  \<open>bitToVector\<close>: a zero vector of length \<open>2 ** n\<close> with a one stored at the index
  \<open>int(bitstring, 2)\<close>, reshaped to a column.
\<close>

definition bitToVector :: "string \<Rightarrow> py_error + matrix" where
  "bitToVector bitstring =
     (let n = length bitstring; b = replicate (2 ^ n) (0::complex)
      in bind_err (int_base2 bitstring) (\<lambda>k.
           if k < length b then Inr (map (\<lambda>x. [x]) (b[k := 1])) else Inl IndexError))"

definition invM :: "matrix \<Rightarrow> nat \<Rightarrow> py_error + matrix" where
  "invM rho n = np_sub (scale (2 ^ n + 1) rho) (eye (2 ^ n))"

definition getSnapshot :: "matrix \<Rightarrow> matrix \<Rightarrow> nat \<Rightarrow> py_error + matrix" where
  "getSnapshot state Udg n =
     bind_err (dot Udg state) (\<lambda>snapshot.
     bind_err (dot snapshot (conjT snapshot)) (\<lambda>snapshot'.
     invM snapshot' n))"


subsection \<open>Random Pauli bases\<close>

datatype gate = H nat | Sdg nat | Measure_all

text \<open>
  \<open>n_pauli_circuit\<close> draws one number per qubit. The generator is a stream of reals
  \<open>rand\<close> together with the count \<open>k\<close> of the draws made so far; the function returns the
  dictionary \<open>qbases\<close>, the gates appended to the circuit, and the new count. The draw is
  compared with the doubles \<open>1/3\<close> and \<open>2/3\<close> of the source.
\<close>

definition choose_basis ::
  "real \<Rightarrow> nat \<Rightarrow> (nat \<rightharpoonup> nat) \<times> gate list \<Rightarrow> (nat \<rightharpoonup> nat) \<times> gate list" where
  "choose_basis which_measure qbit st =
     (case st of (qbases, qc) \<Rightarrow>
        if which_measure < one_third then (qbases(qbit \<mapsto> 0), qc @ [H qbit])
        else if which_measure \<ge> one_third \<and> which_measure < two_thirds
          then (qbases(qbit \<mapsto> 1), qc @ [Sdg qbit, H qbit])
        else (qbases(qbit \<mapsto> 2), qc))"

text \<open>The basis that \<open>choose_basis\<close> stores for a draw.\<close>

definition basis_id_of_draw :: "real \<Rightarrow> nat" where
  "basis_id_of_draw r = (if r < one_third then 0 else if r < two_thirds then 1 else 2)"

text \<open>A generator that returns the same number at every draw.\<close>

definition constant_draws :: "real \<Rightarrow> nat \<Rightarrow> real" where
  "constant_draws r k = r"

fun basis_loop ::
  "(nat \<Rightarrow> real) \<Rightarrow> nat list \<Rightarrow> nat \<Rightarrow> (nat \<rightharpoonup> nat) \<times> gate list
     \<Rightarrow> ((nat \<rightharpoonup> nat) \<times> gate list) \<times> nat" where
  "basis_loop rand [] k st = (st, k)"
| "basis_loop rand (qbit # qbits) k st =
     basis_loop rand qbits (Suc k) (choose_basis (rand k) qbit st)"

definition n_pauli_circuit ::
  "nat \<Rightarrow> (nat \<Rightarrow> real) \<Rightarrow> nat \<Rightarrow> ((nat \<rightharpoonup> nat) \<times> gate list) \<times> nat" where
  "n_pauli_circuit n rand k =
     (case basis_loop rand [0..<n] k (Map.empty, []) of
        ((qbases, qc), k') \<Rightarrow> ((qbases, qc @ [Measure_all]), k'))"

definition H_gate :: matrix where
  "H_gate = divide_by [[1, 1], [1, - 1]] (complex_of_real (sqrt 2))"

definition S_gate :: matrix where
  "S_gate = [[1, 0], [0, \<i>]]"

definition Udgs :: "py_error + matrix list" where
  "Udgs = bind_err (dot S_gate H_gate) (\<lambda>SH. Inr [H_gate, SH, eye 2])"

text \<open>
  One round of the inner loop of \<open>get_pauli_shadow\<close>: \<open>memory\<close> is the reversed outcome
  and \<open>pos\<close> is the loop variable \<open>bit\<close> of the source; \<open>qbases[bit]\<close> raises for a missing
  key and \<open>Udgs[...]\<close> for an index beyond the list.
\<close>

definition pauli_step ::
  "matrix list \<Rightarrow> (nat \<rightharpoonup> nat) \<Rightarrow> string \<Rightarrow> nat \<Rightarrow> matrix \<Rightarrow> py_error + matrix" where
  "pauli_step Us qbases memory pos snapshot =
     bind_err (bitToVector [memory ! pos]) (\<lambda>b.
     bind_err (case qbases pos of None \<Rightarrow> Inl KeyError
               | Some q \<Rightarrow> if q < length Us then Inr (Us ! q) else Inl IndexError) (\<lambda>Udg.
     bind_err (getSnapshot b Udg 1) (\<lambda>subsnapshot.
     Inr (kron snapshot subsnapshot))))"

fun pauli_loop ::
  "matrix list \<Rightarrow> (nat \<rightharpoonup> nat) \<Rightarrow> string \<Rightarrow> nat list \<Rightarrow> matrix \<Rightarrow> py_error + matrix" where
  "pauli_loop Us qbases memory [] snapshot = Inr snapshot"
| "pauli_loop Us qbases memory (pos # rest) snapshot =
     bind_err (pauli_step Us qbases memory pos snapshot) (pauli_loop Us qbases memory rest)"

text \<open>
  The snapshot of one shot of \<open>get_pauli_shadow\<close>, from the dictionary \<open>qbases\<close> and the
  measured string \<open>memory\<close> of the shot. The accumulator starts as the number 1, whose
  Kronecker product with an array is that array; it is the 1-by-1 array here.
\<close>

definition pauli_snapshot :: "(nat \<rightharpoonup> nat) \<Rightarrow> string \<Rightarrow> py_error + matrix" where
  "pauli_snapshot qbases memory =
     bind_err Udgs (\<lambda>Us.
       let memory' = rev memory
       in pauli_loop Us qbases memory' [0..<length memory'] [[1]])"

section \<open>Snapshots in double precision\<close>

text \<open>
  The same functions on arrays of real doubles (numpy's \<open>float64\<close>), every arithmetic
  operation rounded by \<open>fl\<close>; a double is the rational number it stands for.
  \<open>bitToVector\<close> returns such an array, and \<open>H\<close> and \<open>I\<close> of \<open>get_pauli_shadow\<close> are such
  arrays. Arrays with complex entries, among them \<open>S.dot(H)\<close>, are not part of this
  section.
\<close>

type_synonym fmatrix = "rat list list"

definition bitToVector_f64 :: "string \<Rightarrow> py_error + fmatrix" where
  "bitToVector_f64 bitstring =
     (let n = length bitstring; b = replicate (2 ^ n) (0::rat)
      in bind_err (int_base2 bitstring) (\<lambda>k.
           if k < length b then Inr (map (\<lambda>x. [x]) (b[k := 1])) else Inl IndexError))"

text \<open>
  \<open>np.sqrt(2)\<close> is the double nearest to the square root of 2, and \<open>H\<close> is the integer
  array \<open>[[1,1],[1,-1]]\<close> divided by it, entry by entry.
\<close>

definition sqrt2_f64 :: rat where
  "sqrt2_f64 = 6369051672525773 / 2 ^ 52"

definition H_f64 :: fmatrix where
  "H_f64 = map (map (\<lambda>x. fl (x / sqrt2_f64))) [[1, 1], [1, - 1]]"

definition eye_f64 :: "nat \<Rightarrow> fmatrix" where
  "eye_f64 d = map (\<lambda>i. map (\<lambda>j. if i = j then 1 else 0) [0..<d]) [0..<d]"

text \<open>
  The matrix product rounds every product and adds the products from the left, rounding
  every sum. (A library may add in another order or fuse a product with a sum; when at
  most one product of a sum is not zero, as in both products of \<open>getSnapshot\<close> on a vector
  of \<open>bitToVector\<close>, the entry is that product rounded once, whatever the order.)
\<close>

definition dot_f64 :: "fmatrix \<Rightarrow> fmatrix \<Rightarrow> py_error + fmatrix" where
  "dot_f64 A B =
     (if ncols A = length B
      then Inr (map (\<lambda>row. map (\<lambda>j. foldl (\<lambda>acc p. fl (acc + p)) 0
                                        (map2 (\<lambda>a b. fl (a * b)) row (column B j)))
                              [0..<ncols B]) A)
      else Inl ValueError)"

text \<open>\<open>conj().T\<close> of a real array is its transpose.\<close>

definition transpose_f64 :: "fmatrix \<Rightarrow> fmatrix" where
  "transpose_f64 A = map (column A) [0..<ncols A]"

definition invM_f64 :: "fmatrix \<Rightarrow> nat \<Rightarrow> py_error + fmatrix" where
  "invM_f64 rho n =
     elementwise (\<lambda>a b. fl (a - b)) (map (map (\<lambda>x. fl ((2 ^ n + 1) * x))) rho) (eye_f64 (2 ^ n))"

definition getSnapshot_f64 :: "fmatrix \<Rightarrow> fmatrix \<Rightarrow> nat \<Rightarrow> py_error + fmatrix" where
  "getSnapshot_f64 state Udg n =
     bind_err (dot_f64 Udg state) (\<lambda>snapshot.
     bind_err (dot_f64 snapshot (transpose_f64 snapshot)) (\<lambda>snapshot'.
     invM_f64 snapshot' n))"

definition kron_f64 :: "fmatrix \<Rightarrow> fmatrix \<Rightarrow> fmatrix" where
  "kron_f64 A B =
     concat (map (\<lambda>ra. map (\<lambda>rb. concat (map (\<lambda>a. map (\<lambda>b. fl (a * b)) rb) ra)) B) A)"

text \<open>The sum of the diagonal entries, as a rational number.\<close>

definition trace_f64 :: "fmatrix \<Rightarrow> rat" where
  "trace_f64 A = sum_list (map (\<lambda>i. A ! i ! i) [0..<min (length A) (ncols A)])"

section \<open>Median of means\<close>

text \<open>
  \<open>np.median\<close> sorts a complex array by real part, then by imaginary part, and returns
  the middle entry, or the mean of the two middle entries of an array of even length. The
  median of the empty array is numpy's \<open>nan\<close>, which is \<open>None\<close> here. The fidelity
  function of the quantum library is the parameter \<open>state_fidelity\<close>.
\<close>

definition np_median :: "complex list \<Rightarrow> complex option" where
  "np_median a =
     (let part = sort_key (\<lambda>z. (Re z, Im z)) a; sz = length a
      in if sz = 0 then None
         else if sz mod 2 = 0 then Some ((part ! (sz div 2 - 1) + part ! (sz div 2)) / 2)
         else Some (part ! ((sz - 1) div 2)))"

definition get_fidelity_prediction ::
  "('psi \<Rightarrow> matrix \<Rightarrow> complex) \<Rightarrow> matrix list \<Rightarrow> 'psi \<Rightarrow> real option" where
  "get_fidelity_prediction state_fidelity estimators psi =
     (let predictions = map (\<lambda>rho. state_fidelity psi rho) estimators
      in map_option Re (np_median predictions))"

section \<open>The specification's formulas\<close>

text \<open>
  The definitions of this section follow the wording of the specification, not the code;
  the theorems below compare them with the functions above.
\<close>

definition is_bitstring :: "string \<Rightarrow> bool" where
  "is_bitstring s = list_all (\<lambda>c. c = CHR ''0'' \<or> c = CHR ''1'') s"

definition binary_value :: "string \<Rightarrow> nat" where
  "binary_value s =
     (\<Sum>i<length s. (if s ! i = CHR ''1'' then 1 else 0) * 2 ^ (length s - 1 - i))"

definition one_hot :: "nat \<Rightarrow> nat \<Rightarrow> complex list" where
  "one_hot d k = map (\<lambda>i. if i = k then 1 else 0) [0..<d]"

definition apply_to_ket :: "matrix \<Rightarrow> complex list \<Rightarrow> complex list" where
  "apply_to_ket U b = map (\<lambda>row. \<Sum>k<length b. row ! k * b ! k) U"

definition inverse_channel :: "nat \<Rightarrow> complex list \<Rightarrow> matrix" where
  "inverse_channel d v =
     map (\<lambda>i. map (\<lambda>j. (of_nat d + 1) * (v ! i * cnj (v ! j)) - (if i = j then 1 else 0))
                [0..<d]) [0..<d]"

definition global_snapshot_spec :: "nat \<Rightarrow> string \<Rightarrow> matrix \<Rightarrow> matrix" where
  "global_snapshot_spec n outcome U =
     inverse_channel (2 ^ n) (apply_to_ket U (one_hot (2 ^ n) (binary_value outcome)))"

definition mat_mult :: "matrix \<Rightarrow> matrix \<Rightarrow> matrix" where
  "mat_mult A B =
     map (\<lambda>row. map (\<lambda>j. \<Sum>k<length B. row ! k * B ! k ! j) [0..<ncols B]) A"

definition unitary :: "nat \<Rightarrow> matrix \<Rightarrow> bool" where
  "unitary d U \<longleftrightarrow>
     is_mat d d U \<and> mat_mult (conjT U) U = eye d \<and> mat_mult U (conjT U) = eye d"

definition hadamard :: matrix where
  "hadamard =
     [[1 / complex_of_real (sqrt 2), 1 / complex_of_real (sqrt 2)],
      [1 / complex_of_real (sqrt 2), - 1 / complex_of_real (sqrt 2)]]"

definition s_dagger :: matrix where
  "s_dagger = [[1, 0], [0, - \<i>]]"

text \<open>
  The conjugate transpose of the unitary applied to a qubit before it is measured:
  a Hadamard gate for X, the gate \<open>S\<^sup>\<dagger>\<close> followed by a Hadamard gate for Y, nothing for Z.
\<close>

definition basis_unitary_dagger :: "nat \<Rightarrow> matrix" where
  "basis_unitary_dagger basis_id =
     (if basis_id = 0 then conjT hadamard
      else if basis_id = 1 then conjT (mat_mult hadamard s_dagger)
      else eye 2)"

definition factor_spec :: "nat \<Rightarrow> char \<Rightarrow> matrix" where
  "factor_spec basis_id c =
     inverse_channel 2 (apply_to_ket (basis_unitary_dagger basis_id) (one_hot 2 (binary_value [c])))"

definition kron_spec :: "matrix \<Rightarrow> matrix \<Rightarrow> matrix" where
  "kron_spec A B =
     map (\<lambda>i. map (\<lambda>j. A ! (i div length B) ! (j div ncols B) * B ! (i mod length B) ! (j mod ncols B))
                [0..<ncols A * ncols B]) [0..<length A * length B]"


definition median_of_sorted :: "'a::field list \<Rightarrow> 'a" where
  "median_of_sorted s =
     (if even (length s) then (s ! (length s div 2 - 1) + s ! (length s div 2)) / 2
      else s ! (length s div 2))"

definition batch_mean :: "nat \<Rightarrow> nat \<Rightarrow> matrix list \<Rightarrow> matrix" where
  "batch_mean d m batch =
     map (\<lambda>i. map (\<lambda>j. (\<Sum>s\<leftarrow>batch. s ! i ! j) / of_nat m) [0..<d]) [0..<d]"

definition basis_gates :: "nat \<Rightarrow> nat \<Rightarrow> gate list" where
  "basis_gates basis_id qbit =
     (if basis_id = 0 then [H qbit] else if basis_id = 1 then [Sdg qbit, H qbit] else [])"

section \<open>The quotient of integers below \<open>2\<^sup>5\<^sup>3\<close>\<close>

text \<open>
  For integers below \<open>2\<^sup>5\<^sup>3\<close> in absolute value the rounding of the quotient never reaches
  the next integer, so \<open>int(N / K)\<close> and \<open>np.floor(N / K)\<close> are the integer quotients.
\<close>

lemma nearest_even_bounds:
  assumes "0 < b"
  shows "a div b \<le> nearest_even a b" "nearest_even a b \<le> a div b + 1"
  by (simp_all add: nearest_even_def Let_def)

lemma nearest_even_down:
  "2 * (a mod b) < b \<Longrightarrow> nearest_even a b = a div b"
  by (simp add: nearest_even_def Let_def)

lemma bitlen_range:
  assumes "0 < x" "x < 2 ^ 53"
  shows "1 \<le> bitlen x" "bitlen x \<le> 53"
proof -
  show "1 \<le> bitlen x"
    using assms(1) bitlen_eq_zero_iff[of x] bitlen_nonneg[of x] by linarith
  show "bitlen x \<le> 53"
  proof (rule ccontr)
    assume "\<not> bitlen x \<le> 53"
    then have "53 \<le> nat (bitlen x - 1)" by simp
    then have "(2::int) ^ 53 \<le> 2 ^ nat (bitlen x - 1)"
      by (intro power_increasing) simp_all
    with bitlen_bounds[OF assms(1)] assms(2) show False by linarith
  qed
qed

lemma quotient_exponent_range:
  assumes "0 < a" "a < 2 ^ 53" "0 < b" "b < 2 ^ 53"
  shows "- 53 \<le> quotient_exponent a b" "quotient_exponent a b \<le> 52"
  using bitlen_range[OF assms(1,2)] bitlen_range[OF assms(3,4)]
  by (auto simp: quotient_exponent_def Let_def)

lemma quotient_exponent_lower:
  assumes "0 < a" "0 < b" "0 \<le> quotient_exponent a b"
  shows "b * 2 ^ nat (quotient_exponent a b) \<le> a"
proof -
  let ?d = "bitlen a - bitlen b"
  show ?thesis
  proof (cases "b * 2 ^ nat ?d \<le> a * 2 ^ nat (- ?d)")
    case True
    then have e: "quotient_exponent a b = ?d" by (simp add: quotient_exponent_def)
    with assms(3) have "nat (- ?d) = 0" by simp
    with True e show ?thesis by simp
  next
    case False
    then have e: "quotient_exponent a b = ?d - 1" by (simp add: quotient_exponent_def)
    with assms(3) have d: "1 \<le> ?d" by simp
    have la: "2 ^ nat (bitlen a - 1) \<le> a" using bitlen_bounds[OF assms(1)] by simp
    have lb: "b < 2 ^ nat (bitlen b)" using bitlen_bounds[OF assms(2)] by simp
    have "b * 2 ^ nat (?d - 1) \<le> 2 ^ nat (bitlen b) * 2 ^ nat (?d - 1)"
      using lb by (intro mult_right_mono) simp_all
    also have "\<dots> = 2 ^ (nat (bitlen b) + nat (?d - 1))"
      by (simp add: power_add)
    also have "nat (bitlen b) + nat (?d - 1) = nat (bitlen a - 1)"
      using d bitlen_nonneg[of b] by simp
    finally show ?thesis using la e by simp
  qed
qed

lemma nearest_even_scaled:
  assumes b: "0 < b" and a: "0 \<le> a" and S: "0 < S" and bS: "b < 2 * S"
  shows "(a div b) * S \<le> nearest_even (a * S) b" "nearest_even (a * S) b < (a div b + 1) * S"
proof -
  let ?q = "a div b"
  let ?A = "a * S"
  have dm: "x div b * b \<le> x" for x :: int
  proof -
    have "x = x div b * b + x mod b" by simp
    moreover have "0 \<le> x mod b" using b by simp
    ultimately show ?thesis by linarith
  qed
  have qa: "?q * b \<le> a" by (rule dm)
  have aq: "a + 1 \<le> (?q + 1) * b"
  proof -
    have "a = ?q * b + a mod b" by simp
    moreover have "a mod b < b" using b by simp
    moreover have "(?q + 1) * b = ?q * b + b" by (simp add: algebra_simps)
    ultimately show ?thesis by linarith
  qed
  have "?q * S * b \<le> ?A"
  proof -
    have "?q * b * S \<le> a * S" using qa S by (intro mult_right_mono) simp_all
    then show ?thesis by (simp add: algebra_simps)
  qed
  then have "(?q * S * b) div b \<le> ?A div b"
    using b by (intro zdiv_mono1) simp_all
  then have "?q * S \<le> ?A div b"
    using b by simp
  with nearest_even_bounds(1)[OF b] show "?q * S \<le> nearest_even ?A b"
    by (meson order_trans)
  let ?T = "(?q + 1) * S"
  have AT: "?A + S \<le> ?T * b"
  proof -
    have "(a + 1) * S \<le> (?q + 1) * b * S" using aq S by (intro mult_right_mono) simp_all
    then show ?thesis by (simp add: algebra_simps)
  qed
  then have lt: "?A < ?T * b" using S by linarith
  have Q: "?A div b < ?T"
  proof (rule ccontr)
    assume "\<not> ?A div b < ?T"
    then have "?T * b \<le> ?A div b * b" using b by (intro mult_right_mono) simp_all
    with dm[of ?A] lt show False by linarith
  qed
  show "nearest_even ?A b < ?T"
  proof (cases "?A div b + 1 < ?T")
    case True
    with nearest_even_bounds(2)[OF b, of ?A] show ?thesis by linarith
  next
    case False
    with Q have Qeq: "?A div b = ?T - 1" by linarith
    have "?A mod b = ?A - (?T - 1) * b"
      using Qeq by (metis minus_div_mult_eq_mod)
    also have "\<dots> \<le> b - S" using AT by (simp add: algebra_simps)
    finally have "2 * (?A mod b) < b" using bS by linarith
    then have "nearest_even ?A b = ?A div b" by (rule nearest_even_down)
    with Q show ?thesis by simp
  qed
qed

lemma double_parts_bounded:
  assumes "0 < a" "a < 2 ^ 53" "0 < b" "b < 2 ^ 53"
  shows "\<exists>m s. double_parts a b = (m, s) \<and> 0 \<le> s
          \<and> (a div b) * 2 ^ nat s \<le> m \<and> m < (a div b + 1) * 2 ^ nat s"
proof -
  let ?e = "quotient_exponent a b"
  let ?s = "52 - ?e"
  have e: "- 53 \<le> ?e" "?e \<le> 52"
    using quotient_exponent_range[OF assms] by simp_all
  then have mx: "max ?e (- 1022) = ?e" by simp
  have s: "0 \<le> ?s" using e by simp
  then have ns: "nat (?e - 52) = 0" by simp
  have parts: "double_parts a b = (nearest_even (a * 2 ^ nat ?s) b, ?s)"
    by (simp add: double_parts_def Let_def mx ns)
  have small: "b < 2 * 2 ^ nat ?s"
  proof (cases "0 \<le> ?e")
    case True
    have "nat ?e + (nat ?s + 1) = 53" using True e by simp
    then have p: "(2::int) ^ 53 = 2 ^ (nat ?s + 1) * 2 ^ nat ?e"
      by (metis power_add mult.commute)
    have "b * 2 ^ nat ?e \<le> a"
      using assms(1,3) True by (rule quotient_exponent_lower)
    with assms(2) p have "b * 2 ^ nat ?e < 2 ^ (nat ?s + 1) * 2 ^ nat ?e" by linarith
    then have "b < 2 ^ (nat ?s + 1)"
      by (simp add: mult_less_cancel_right)
    then show ?thesis by simp
  next
    case False
    then have "53 \<le> nat ?s + 1" by simp
    then have "(2::int) ^ 53 \<le> 2 ^ (nat ?s + 1)"
      by (intro power_increasing) simp_all
    with assms(4) show ?thesis by simp
  qed
  have pos: "(0::int) < 2 ^ nat ?s" by simp
  from nearest_even_scaled[OF assms(3) _ pos small, of a] assms(1) parts s
  show ?thesis by auto
qed

lemma floor_ratio:
  assumes "0 < S" "q * S \<le> m" "m < (q + 1) * S"
  shows "\<lfloor>(of_int m :: rat) / of_int S\<rfloor> = q"
proof -
  have "m div S = q"
  proof (rule int_div_pos_eq[where r = "m - S * q"])
    show "m = S * q + (m - S * q)" by simp
    show "0 \<le> m - S * q" using assms(2) by (simp add: mult.commute)
    show "m - S * q < S" using assms(3) by (simp add: algebra_simps)
  qed
  then show ?thesis by (simp add: floor_divide_of_int_eq)
qed

lemma true_divide_bounded_pos:
  assumes "0 < a" "a < 2 ^ 53" "0 < b" "b < 2 ^ 53"
  shows "\<exists>y. true_divide a b = Inr y \<and> 0 \<le> y \<and> \<lfloor>y\<rfloor> = a div b"
proof -
  from double_parts_bounded[OF assms] obtain m s
    where p: "double_parts a b = (m, s)" "0 \<le> s"
      "(a div b) * 2 ^ nat s \<le> m" "m < (a div b + 1) * 2 ^ nat s"
    by blast
  have q: "0 \<le> a div b" using assms(1,3) by (simp add: pos_imp_zdiv_nonneg_iff)
  have m: "0 \<le> m"
  proof -
    have "0 \<le> (a div b) * 2 ^ nat s" using q by simp
    with p(3) show ?thesis by linarith
  qed
  have ns: "nat (- s) = 0" using p(2) by simp
  have v: "double_value (m, s) = of_int m / of_int (2 ^ nat s)"
    by (simp add: double_value_def ns)
  have "true_divide a b = Inr (double_value (m, s))"
    using assms(1,3) p(1,2) by (simp add: true_divide_def)
  moreover have "0 \<le> double_value (m, s)"
    unfolding v using m by simp
  moreover have "\<lfloor>double_value (m, s)\<rfloor> = a div b"
    unfolding v by (rule floor_ratio[OF _ p(3,4)]) simp
  ultimately show ?thesis by blast
qed

lemma true_divide_bounded:
  assumes "\<bar>N\<bar> < 2 ^ 53" "\<bar>K\<bar> < 2 ^ 53" "K \<noteq> 0"
  shows "\<exists>y. true_divide N K = Inr (of_int (sgn N * sgn K) * y) \<and> 0 \<le> y
           \<and> \<lfloor>y\<rfloor> = \<bar>N\<bar> div \<bar>K\<bar>"
proof (cases "N = 0")
  case True
  with assms(3) have "true_divide N K = Inr (of_int (sgn N * sgn K) * 0)"
    by (simp add: true_divide_def)
  with True show ?thesis by (intro exI[of _ 0]) simp
next
  case False
  then have a: "0 < \<bar>N\<bar>" and b: "0 < \<bar>K\<bar>" using assms(3) by simp_all
  from true_divide_bounded_pos[OF a assms(1) b assms(2)] obtain y
    where y: "true_divide \<bar>N\<bar> \<bar>K\<bar> = Inr y" "0 \<le> y" "\<lfloor>y\<rfloor> = \<bar>N\<bar> div \<bar>K\<bar>"
    by blast
  obtain m s where p: "double_parts \<bar>N\<bar> \<bar>K\<bar> = (m, s)" by (cases "double_parts \<bar>N\<bar> \<bar>K\<bar>")
  from y(1) a b p have ok: "\<not> (s < - 971 \<or> (s = - 971 \<and> m = 2 ^ 53))" "y = double_value (m, s)"
    by (auto simp: true_divide_def split: if_splits)
  then have "true_divide N K = Inr (of_int (sgn N * sgn K) * y)"
    using False assms(3) p by (simp add: true_divide_def)
  with y show ?thesis by blast
qed

lemma int_of_double_signed:
  assumes "0 \<le> y" "\<sigma> = 1 \<or> \<sigma> = 0 \<or> \<sigma> = - 1"
  shows "int_of_double (of_int \<sigma> * y) = \<sigma> * \<lfloor>y\<rfloor>"
  using assms by (auto simp: int_of_double_def)

lemma int_truediv_zero: "int_truediv N 0 = Inl ZeroDivisionError"
  by (simp add: int_truediv_def true_divide_def bind_err_def)

lemma floor_truediv_zero: "floor_truediv N 0 = Inl ZeroDivisionError"
  by (simp add: floor_truediv_def true_divide_def bind_err_def)

lemma int_truediv_bounded:
  assumes "\<bar>N\<bar> < 2 ^ 53" "\<bar>K\<bar> < 2 ^ 53" "K \<noteq> 0"
  shows "int_truediv N K = Inr (sgn N * sgn K * (\<bar>N\<bar> div \<bar>K\<bar>))"
proof -
  from true_divide_bounded[OF assms] obtain y
    where y: "true_divide N K = Inr (of_int (sgn N * sgn K) * y)" "0 \<le> y"
      "\<lfloor>y\<rfloor> = \<bar>N\<bar> div \<bar>K\<bar>"
    by blast
  have "sgn N * sgn K = 1 \<or> sgn N * sgn K = 0 \<or> sgn N * sgn K = - 1"
    by (auto simp: sgn_if)
  from int_of_double_signed[OF y(2) this] y(1,3) show ?thesis
    by (simp add: int_truediv_def bind_err_def)
qed

lemma floor_truediv_defined:
  assumes "\<bar>N\<bar> < 2 ^ 53" "\<bar>K\<bar> < 2 ^ 53" "K \<noteq> 0"
  shows "\<exists>m. floor_truediv N K = Inr m"
  using true_divide_bounded[OF assms] by (auto simp: floor_truediv_def bind_err_def)

lemma floor_truediv_pos:
  assumes "0 < N" "N < 2 ^ 53" "0 < K" "K < 2 ^ 53"
  shows "floor_truediv N K = Inr (N div K)"
  using true_divide_bounded_pos[OF assms] by (auto simp: floor_truediv_def bind_err_def)

lemma int_truediv_pos:
  assumes "0 < N" "N < 2 ^ 53" "0 < K" "K < 2 ^ 53"
  shows "int_truediv N K = Inr (N div K)"
  using int_truediv_bounded[of N K] assms by simp

section \<open>Arrays of equal shape\<close>

lemma is_mat_iff: "is_mat r c A \<longleftrightarrow> length A = r \<and> (\<forall>row\<in>set A. length row = c)"
  by (simp add: is_mat_def list_all_iff)

lemma ncols_is_mat: "is_mat r c A \<Longrightarrow> 0 < r \<Longrightarrow> ncols A = c"
  by (cases A) (auto simp: is_mat_iff ncols_def)

lemma elementwise_same_shape:
  assumes A: "is_mat r c A" and B: "is_mat r c B"
  shows "elementwise f A B = Inr (map2 (map2 f) A B)"
proof (cases "r = 0")
  case True
  with A B show ?thesis
    by (simp add: is_mat_iff elementwise_def bdim_def ncols_def stretch_def)
next
  case False
  then have nc: "ncols A = c" "ncols B = c"
    using A B by (simp_all add: ncols_is_mat)
  have len: "length A = r" "length B = r"
    using A B by (simp_all add: is_mat_iff)
  have rows: "\<And>ra rb. (ra, rb) \<in> set (zip A B) \<Longrightarrow> length ra = c \<and> length rb = c"
    using A B by (auto simp: is_mat_iff dest: set_zip_leftD set_zip_rightD)
  have "map2 (\<lambda>ra rb. map2 f (stretch c ra) (stretch c rb)) A B = map2 (map2 f) A B"
    by (rule map_cong) (auto simp: stretch_def dest: rows)
  then show ?thesis
    by (simp add: elementwise_def bdim_def nc len stretch_def)
qed

lemma is_mat_map2:
  assumes "is_mat r c A" "is_mat r c B"
  shows "is_mat r c (map2 (map2 f) A B)"
proof -
  have "\<And>ra rb. (ra, rb) \<in> set (zip A B) \<Longrightarrow> length ra = c \<and> length rb = c"
    using assms by (auto simp: is_mat_iff dest: set_zip_leftD set_zip_rightD)
  then show ?thesis
    using assms by (auto simp: is_mat_iff)
qed

lemma np_add_same_shape:
  "is_mat r c A \<Longrightarrow> is_mat r c B \<Longrightarrow> np_add A B = Inr (map2 (map2 (+)) A B)"
  by (simp add: np_add_def elementwise_same_shape)

lemma fold_add_ok:
  "is_mat r c acc \<Longrightarrow> \<forall>s\<in>set xs. is_mat r c s \<Longrightarrow>
     \<exists>total. fold_add acc xs = Inr total \<and> is_mat r c total"
proof (induction xs arbitrary: acc)
  case Nil
  then show ?case by simp
next
  case (Cons x xs)
  then have "is_mat r c (map2 (map2 (+)) acc x)"
    by (simp add: is_mat_map2)
  with Cons show ?case
    by (simp add: np_add_same_shape)
qed

lemma reduce_add_ok:
  "shade \<noteq> [] \<Longrightarrow> \<forall>s\<in>set shade. is_mat r c s \<Longrightarrow>
     \<exists>total. reduce_add shade = Inr total \<and> is_mat r c total"
  by (cases shade) (simp_all add: reduce_add_def fold_add_ok)

lemma map_err_ok:
  "\<forall>x\<in>set xs. \<exists>y. f x = Inr y \<Longrightarrow> \<exists>ys. map_err f xs = Inr ys \<and> length ys = length xs"
  by (induction xs) auto

lemma map_err_cong:
  "(\<And>x. x \<in> set xs \<Longrightarrow> f x = g x) \<Longrightarrow> map_err f xs = map_err g xs"
  by (induction xs) (auto split: sum.splits)

lemma chunks_pos:
  "0 < n \<Longrightarrow> chunks lst n =
     Inr (map (\<lambda>j. take (nat n) (drop (j * nat n) lst)) [0..<(length lst + nat n - 1) div nat n])"
  by (simp add: chunks_def py_range0_def comp_def)

lemma chunks_neg: "n < 0 \<Longrightarrow> chunks lst n = Inr []"
  by (simp add: chunks_def py_range0_def)

lemma chunks_zero: "chunks lst 0 = Inl ValueError"
  by (simp add: chunks_def py_range0_def)

lemma chunk_nonempty:
  assumes "0 < m" "j < (length lst + m - 1) div m"
  shows "take m (drop (j * m) lst) \<noteq> []"
proof -
  have "j * m < length lst"
  proof (rule ccontr)
    assume "\<not> j * m < length lst"
    then have "length lst + m - 1 < (j + 1) * m" using assms(1) by simp
    then have "(length lst + m - 1) div m < j + 1"
      using assms(1) by (simp add: div_less_iff_less_mult)
    with assms(2) show False by simp
  qed
  with assms(1) show ?thesis by simp
qed

lemma chunks_pos_props:
  assumes "0 < n" "chunks lst n = Inr shades" "shade \<in> set shades"
  shows "shade \<noteq> [] \<and> set shade \<subseteq> set lst"
proof -
  from assms obtain j where j: "j < (length lst + nat n - 1) div nat n"
      and sh: "shade = take (nat n) (drop (j * nat n) lst)"
    by (auto simp: chunks_pos)
  have "shade \<noteq> []" unfolding sh using assms(1) j by (intro chunk_nonempty) simp_all
  moreover have "set shade \<subseteq> set lst"
    unfolding sh by (meson set_take_subset set_drop_subset subset_trans)
  ultimately show ?thesis by simp
qed

lemma int_truediv_nonzero:
  assumes "\<bar>N\<bar> < 2 ^ 53" "\<bar>K\<bar> < 2 ^ 53" "K \<noteq> 0" "int_truediv N K = Inr n"
  shows "n = 0 \<longleftrightarrow> \<bar>N\<bar> < \<bar>K\<bar>"
proof -
  have q: "0 \<le> \<bar>N\<bar> div \<bar>K\<bar>"
    by (simp add: div_int_pos_iff)
  have "0 < \<bar>N\<bar> div \<bar>K\<bar> \<longleftrightarrow> \<bar>K\<bar> \<le> \<bar>N\<bar>"
    using assms(3) by (simp add: pos_imp_zdiv_pos_iff)
  with q have z: "\<bar>N\<bar> div \<bar>K\<bar> = 0 \<longleftrightarrow> \<bar>N\<bar> < \<bar>K\<bar>"
    by linarith
  from int_truediv_bounded[OF assms(1-3)] assms(4)
  have "n = sgn N * sgn K * (\<bar>N\<bar> div \<bar>K\<bar>)"
    by simp
  then have "n = 0 \<longleftrightarrow> N = 0 \<or> \<bar>N\<bar> div \<bar>K\<bar> = 0"
    using assms(3) by (simp add: sgn_if)
  with z assms(3) show ?thesis by auto
qed

lemma estimator_of_ok:
  assumes "\<bar>N\<bar> < 2 ^ 53" "\<bar>K\<bar> < 2 ^ 53" "K \<noteq> 0" "shade \<noteq> []" "\<forall>s\<in>set shade. is_mat r c s"
  shows "\<exists>est. estimator_of N K shade = Inr est"
proof -
  from reduce_add_ok[OF assms(4,5)] obtain total where "reduce_add shade = Inr total" by blast
  moreover from floor_truediv_defined[OF assms(1-3)] obtain m where "floor_truediv N K = Inr m"
    by blast
  ultimately show ?thesis
    by (simp add: estimator_of_def bind_err_def)
qed

lemma get_estimators_raises:
  assumes shapes: "\<forall>s\<in>set shadow. is_mat r c s"
    and N: "\<bar>N\<bar> < 2 ^ 53" and K: "\<bar>K\<bar> < 2 ^ 53"
  shows "(K = 0 \<longrightarrow> int_truediv N K = Inl ZeroDivisionError
                  \<and> get_estimators shadow N K = Inl ZeroDivisionError)
       \<and> (K \<noteq> 0 \<and> \<bar>N\<bar> < \<bar>K\<bar> \<longrightarrow> bind_err (int_truediv N K) (chunks shadow) = Inl ValueError
                  \<and> get_estimators shadow N K = Inl ValueError)
       \<and> (K \<noteq> 0 \<and> \<bar>K\<bar> \<le> \<bar>N\<bar> \<longrightarrow> (\<exists>ests. get_estimators shadow N K = Inr ests))"
proof (intro conjI impI)
  assume "K = 0"
  then show "int_truediv N K = Inl ZeroDivisionError"
    by (simp add: int_truediv_zero)
  then show "get_estimators shadow N K = Inl ZeroDivisionError"
    by (simp add: get_estimators_def bind_err_def)
next
  assume a: "K \<noteq> 0 \<and> \<bar>N\<bar> < \<bar>K\<bar>"
  then have tv: "int_truediv N K = Inr 0"
    using int_truediv_bounded[OF N K] by simp
  show "bind_err (int_truediv N K) (chunks shadow) = Inl ValueError"
    by (simp add: tv bind_err_def chunks_zero)
  show "get_estimators shadow N K = Inl ValueError"
    by (simp add: get_estimators_def tv bind_err_def chunks_zero)
next
  assume a: "K \<noteq> 0 \<and> \<bar>K\<bar> \<le> \<bar>N\<bar>"
  define n where "n = sgn N * sgn K * (\<bar>N\<bar> div \<bar>K\<bar>)"
  have n: "int_truediv N K = Inr n"
    using a int_truediv_bounded[OF N K] by (simp add: n_def)
  have "n \<noteq> 0" using int_truediv_nonzero[OF N K _ n] a by auto
  then consider "n < 0" | "0 < n" by linarith
  then show "\<exists>ests. get_estimators shadow N K = Inr ests"
  proof cases
    case 1
    then show ?thesis by (simp add: get_estimators_def bind_err_def n chunks_neg)
  next
    case 2
    then obtain shades where sh: "chunks shadow n = Inr shades"
      by (simp add: chunks_pos)
    have "\<forall>shade\<in>set shades. \<exists>est. estimator_of N K shade = Inr est"
    proof
      fix shade assume "shade \<in> set shades"
      from chunks_pos_props[OF 2 sh this] shapes
      show "\<exists>est. estimator_of N K shade = Inr est"
        using a N K by (intro estimator_of_ok[where r=r and c=c]) auto
    qed
    from map_err_ok[OF this] show ?thesis
      by (auto simp: get_estimators_def bind_err_def n sh)
  qed
qed

lemma get_estimators_depends_on_quotient:
  assumes "0 < N" "N < 2 ^ 53" "0 < K" "K < 2 ^ 53" "0 < N'" "N' < 2 ^ 53" "0 < K'" "K' < 2 ^ 53"
    and "N div K = N' div K'"
  shows "get_estimators shadow N K = get_estimators shadow N' K'"
proof -
  have f: "floor_truediv N K = floor_truediv N' K'"
    using assms by (simp add: floor_truediv_pos)
  have i: "int_truediv N K = int_truediv N' K'"
    using assms by (simp add: int_truediv_pos)
  have "estimator_of N K = estimator_of N' K'"
    by (simp add: estimator_of_def f fun_eq_iff)
  then show ?thesis
    by (simp add: get_estimators_def i)
qed

lemma quotient_5_2: "int_truediv 5 2 = Inr 2" "floor_truediv 5 2 = Inr 2"
  using int_truediv_pos[of 5 2] floor_truediv_pos[of 5 2] by simp_all

lemma quotient_large:
  "int_truediv 299999999999999999 100000000000000000 = Inr 3"
  "floor_truediv 299999999999999999 100000000000000000 = Inr 3"
  unfolding int_truediv_def floor_truediv_def by code_simp+

text \<open>
  Beyond \<open>2\<^sup>5\<^sup>3\<close> the double quotient is not the integer quotient: \<open>10\<^sup>1\<^sup>7 / (10\<^sup>1\<^sup>7 + 1)\<close> is
  the double 1, so that every snapshot is a batch of its own although \<open>N < K\<close>, and
  \<open>10\<^sup>4\<^sup>0\<^sup>0 / 1\<close> raises \<open>OverflowError\<close>.
\<close>

lemma quotient_beyond_bound:
  "true_divide 100000000000000000 100000000000000001 = Inr 1"
  "true_divide (10 ^ 400) 1 = Inl OverflowError"
  by code_simp+

lemma get_estimators_beyond_bound:
  "get_estimators [[[3]], [[5]]] 100000000000000000 100000000000000001 = Inr [[[3]], [[5]]]"
  "get_estimators shadow (10 ^ 400) 1 = Inl OverflowError"
proof -
  have i: "int_truediv 100000000000000000 100000000000000001 = Inr 1"
    "floor_truediv 100000000000000000 100000000000000001 = Inr 1"
    unfolding int_truediv_def floor_truediv_def quotient_beyond_bound(1)
    by (simp_all add: bind_err_def int_of_double_def)
  show "get_estimators [[[3]], [[5]]] 100000000000000000 100000000000000001 = Inr [[[3]], [[5]]]"
    by (simp add: get_estimators_def bind_err_def i chunks_def py_range0_def estimator_of_def
        reduce_add_def divide_by_def)
  show "get_estimators shadow (10 ^ 400) 1 = Inl OverflowError"
    unfolding get_estimators_def int_truediv_def quotient_beyond_bound(2)
    by (simp only: bind_err_def sum.case)
qed

section \<open>Claims about the batches\<close>

text \<open>
  C1. The claim: for \<open>m = floor(N / K) \<ge> 1\<close> the function returns exactly \<open>K\<close> estimators,
  each the mean of \<open>m\<close> consecutive snapshots, and drops the trailing snapshots when \<open>K\<close>
  does not divide \<open>N\<close>. The code does otherwise: for five snapshots and \<open>K = 2\<close> (so
  \<open>m = 2\<close>) it returns three estimators, and the third is the fifth snapshot divided
  by 2. (The comment in the source reads: split shadow into K equally sized parts.)
\<close>

theorem get_estimators_keeps_trailing_batch:
  "get_estimators
     [[[1, 0], [0, 1]], [[3, 0], [0, 3]], [[1, 2], [3, 4]], [[1, 0], [0, 1]], [[4, 0], [0, 8]]] 5 2
   = Inr [[[2, 0], [0, 2]], [[1, 1], [3 / 2, 5 / 2]], [[2, 0], [0, 4]]]"
  by (simp add: get_estimators_def bind_err_def quotient_5_2 chunks_def py_range0_def
      estimator_of_def reduce_add_def np_add_def elementwise_def bdim_def ncols_def stretch_def
      divide_by_def)

text \<open>
  C5. The claim: the function fails whenever \<open>K < 1\<close> or \<open>floor(N / K) < 1\<close>. It does not
  for a negative \<open>K\<close>: the step of the range is negative, there is no batch, and the empty
  list is returned.
\<close>

theorem get_estimators_negative_K_counterexample:
  "(- 1 :: int) < 1 \<and>
   get_estimators
     [[[1, 0], [0, 1]], [[3, 0], [0, 3]], [[1, 2], [3, 4]], [[1, 0], [0, 1]], [[4, 0], [0, 8]]]
     5 (- 1) = Inr []"
  using int_truediv_bounded[of 5 "- 1"]
  by (simp add: get_estimators_def bind_err_def chunks_def py_range0_def)

text \<open>
  C5, amended. For \<open>N\<close> and \<open>K\<close> below \<open>2\<^sup>5\<^sup>3\<close> in absolute value (where the double \<open>N / K\<close>
  has the integer part of the exact quotient) and a shadow of snapshots of one shape, the
  function raises exactly when \<open>K = 0\<close> (the division raises \<open>ZeroDivisionError\<close>) or
  \<open>\<bar>N\<bar> < \<bar>K\<bar>\<close> (the batch size \<open>int(N / K)\<close> is 0 and the range raises \<open>ValueError\<close>); the
  error comes from the computation of the batches' bounds, before any batch is summed.
  For \<open>K \<ge> 1\<close> and \<open>floor(N / K) \<ge> 1\<close> nothing is raised.
\<close>

theorem get_estimators_raises_iff:
  assumes "\<forall>s\<in>set shadow. is_mat r c s" and "\<bar>N\<bar> < 2 ^ 53" and "\<bar>K\<bar> < 2 ^ 53"
  shows "(get_estimators shadow N K = Inl ZeroDivisionError \<longleftrightarrow> K = 0)
       \<and> (get_estimators shadow N K = Inl ValueError \<longleftrightarrow> K \<noteq> 0 \<and> \<bar>N\<bar> < \<bar>K\<bar>)
       \<and> (isl (get_estimators shadow N K) \<longleftrightarrow> K = 0 \<or> \<bar>N\<bar> < \<bar>K\<bar>)
       \<and> (isl (get_estimators shadow N K) \<longleftrightarrow> isl (bind_err (int_truediv N K) (chunks shadow)))
       \<and> \<not> (1 \<le> K \<and> 1 \<le> N div K \<and> isl (get_estimators shadow N K))"
proof -
  note R = get_estimators_raises[OF assms]
  consider "K = 0" | "K \<noteq> 0" "\<bar>N\<bar> < \<bar>K\<bar>" | "K \<noteq> 0" "\<bar>K\<bar> \<le> \<bar>N\<bar>"
    by linarith
  then show ?thesis
  proof cases
    case 1
    with R show ?thesis by (simp add: bind_err_def)
  next
    case 2
    have "N div K < 1 \<or> K < 1"
    proof (cases "0 < K")
      case True
      then have "0 < N div K \<longleftrightarrow> K \<le> N" by (rule pos_imp_zdiv_pos_iff)
      with 2 True show ?thesis by auto
    next
      case False
      then show ?thesis by simp
    qed
    with 2 R show ?thesis by auto
  next
    case 3
    with R obtain ests where e: "get_estimators shadow N K = Inr ests" by auto
    have n: "int_truediv N K = Inr (sgn N * sgn K * (\<bar>N\<bar> div \<bar>K\<bar>))"
      using 3 assms(2,3) by (simp add: int_truediv_bounded)
    define q where "q = sgn N * sgn K * (\<bar>N\<bar> div \<bar>K\<bar>)"
    have "q \<noteq> 0"
      using int_truediv_nonzero[OF assms(2,3) 3(1) n] 3 by (auto simp: q_def)
    then consider "0 < q" | "q < 0" by linarith
    then have "\<not> isl (chunks shadow q)"
      by cases (simp_all add: chunks_pos chunks_neg)
    with 3 e n show ?thesis by (simp add: bind_err_def q_def)
  qed
qed

theorem get_estimators_raises_iff_witness:
  "list_all (is_mat 2 2) [[[1, 0], [0, 1]], [[3, 0], [0, 3 :: complex]]]
   \<and> \<bar>1 :: int\<bar> < 2 ^ 53 \<and> \<bar>2 :: int\<bar> < 2 ^ 53
   \<and> get_estimators [[[1, 0], [0, 1]], [[3, 0], [0, 3]]] 1 2 = Inl ValueError
   \<and> (1 :: int) \<le> 2 \<and> (1 :: int) \<le> 2 div 2
   \<and> \<not> isl (get_estimators [[[1, 0], [0, 1]], [[3, 0], [0, 3]]] 2 2)"
proof -
  have h: "\<forall>s\<in>set [[[1, 0], [0, 1]], [[3, 0], [0, 3 :: complex]]]. is_mat 2 2 s"
    by (simp add: is_mat_def)
  have b: "\<bar>1 :: int\<bar> < 2 ^ 53" "\<bar>2 :: int\<bar> < 2 ^ 53"
    by simp_all
  show ?thesis
    using h b get_estimators_raises_iff[OF h b(1) b(2)] get_estimators_raises_iff[OF h b(2) b(2)]
    by simp
qed

text \<open>
  C10. The claim: for positive \<open>N\<close>, \<open>K\<close>, \<open>N'\<close>, \<open>K'\<close> with the same \<open>floor(N / K) \<ge> 1\<close> the
  function returns the same result. The code uses the double \<open>N / K\<close>, and for
  \<open>N = 3\<cdot>10\<^sup>1\<^sup>7 - 1\<close> and \<open>K = 10\<^sup>1\<^sup>7\<close>, whose exact quotient is below 3 with integer part 2,
  that double is \<open>3.0\<close>: three snapshots then make one batch which is divided by 3, while
  for \<open>N' = 5\<close> and \<open>K' = 2\<close>, with the same integer part 2, they make two batches.
\<close>

theorem get_estimators_rounded_quotient_counterexample:
  "(299999999999999999 :: int) div 100000000000000000 = 5 div 2
   \<and> (1 :: int) \<le> 5 div 2
   \<and> get_estimators [[[3]], [[3]], [[6]]] 299999999999999999 100000000000000000 = Inr [[[4]]]
   \<and> get_estimators [[[3]], [[3]], [[6]]] 5 2 = Inr [[[3]], [[3]]]"
  by (simp add: get_estimators_def bind_err_def quotient_5_2 quotient_large chunks_def
      py_range0_def estimator_of_def reduce_add_def np_add_def elementwise_def bdim_def ncols_def
      stretch_def divide_by_def)

text \<open>
  C10, amended. For positive \<open>N\<close>, \<open>K\<close>, \<open>N'\<close>, \<open>K'\<close> below \<open>2\<^sup>5\<^sup>3\<close> with the same quotient
  \<open>floor(N / K) \<ge> 1\<close>, the function returns the same result, whatever the length of the
  shadow; and on snapshots of one shape it raises nothing.
\<close>

theorem get_estimators_only_quotient:
  assumes "0 < N" "N < 2 ^ 53" "0 < K" "K < 2 ^ 53" "0 < N'" "N' < 2 ^ 53" "0 < K'" "K' < 2 ^ 53"
    and "N div K = N' div K'" "1 \<le> N div K"
  shows "get_estimators shadow N K = get_estimators shadow N' K'
       \<and> ((\<forall>s\<in>set shadow. is_mat r c s) \<longrightarrow> (\<exists>ests. get_estimators shadow N K = Inr ests))"
proof (intro conjI impI)
  show "get_estimators shadow N K = get_estimators shadow N' K'"
    using assms(1-9) by (rule get_estimators_depends_on_quotient)
next
  assume shapes: "\<forall>s\<in>set shadow. is_mat r c s"
  have "0 < N div K \<longleftrightarrow> K \<le> N"
    using assms(3) by (rule pos_imp_zdiv_pos_iff)
  then have "K \<noteq> 0 \<and> \<bar>K\<bar> \<le> \<bar>N\<bar>"
    using assms(1,3,10) by auto
  moreover have "\<bar>N\<bar> < 2 ^ 53" "\<bar>K\<bar> < 2 ^ 53"
    using assms(1-4) by simp_all
  ultimately show "\<exists>ests. get_estimators shadow N K = Inr ests"
    using get_estimators_raises[OF shapes, of N K] by simp
qed

theorem get_estimators_only_quotient_witness:
  "(0 :: int) < 4 \<and> (4 :: int) < 2 ^ 53 \<and> (0 :: int) < 2 \<and> (2 :: int) < 2 ^ 53
   \<and> (0 :: int) < 5 \<and> (5 :: int) < 2 ^ 53 \<and> (4 :: int) div 2 = 5 div 2
   \<and> (1 :: int) \<le> 4 div 2
   \<and> length [[[1, 0], [0, 1]], [[3, 0], [0, 3]], [[1, 2], [3, 4 :: complex]]] \<noteq> 4
   \<and> list_all (is_mat 2 2) [[[1, 0], [0, 1]], [[3, 0], [0, 3]], [[1, 2], [3, 4 :: complex]]]
   \<and> get_estimators [[[1, 0], [0, 1]], [[3, 0], [0, 3]], [[1, 2], [3, 4]]] 4 2
     = get_estimators [[[1, 0], [0, 1]], [[3, 0], [0, 3]], [[1, 2], [3, 4]]] 5 2
   \<and> (\<exists>ests. get_estimators [[[1, 0], [0, 1]], [[3, 0], [0, 3]], [[1, 2], [3, 4]]] 4 2 = Inr ests)"
proof -
  have h: "\<forall>s\<in>set [[[1, 0], [0, 1]], [[3, 0], [0, 3]], [[1, 2], [3, 4 :: complex]]]. is_mat 2 2 s"
    by (simp add: is_mat_def)
  have a: "(0 :: int) < 4" "(4 :: int) < 2 ^ 53" "(0 :: int) < 2" "(2 :: int) < 2 ^ 53"
    "(0 :: int) < 5" "(5 :: int) < 2 ^ 53" "(0 :: int) < 2" "(2 :: int) < 2 ^ 53"
    "(4 :: int) div 2 = 5 div 2" "(1 :: int) \<le> 4 div 2"
    by simp_all
  have l: "length [[[1, 0], [0, 1]], [[3, 0], [0, 3]], [[1, 2], [3, 4 :: complex]]] \<noteq> 4"
    by simp
  have h': "list_all (is_mat 2 2) [[[1, 0], [0, 1]], [[3, 0], [0, 3]], [[1, 2], [3, 4 :: complex]]]"
    by (simp add: is_mat_def)
  from get_estimators_only_quotient[OF a,
      of "[[[1, 0], [0, 1]], [[3, 0], [0, 3]], [[1, 2], [3, 4]]]" 2 2] h h' a l
  show ?thesis by blast
qed


section \<open>Random Pauli bases\<close>

lemma choose_basis_eq:
  "choose_basis r q (qb, qc) =
     (qb(q \<mapsto> basis_id_of_draw r), qc @ basis_gates (basis_id_of_draw r) q)"
  by (simp add: choose_basis_def basis_id_of_draw_def basis_gates_def)

lemma basis_loop_upt:
  "basis_loop rand [a..<a + n] k (qb, qc) =
     ((\<lambda>q. if a \<le> q \<and> q < a + n then Some (basis_id_of_draw (rand (k + (q - a)))) else qb q,
       qc @ concat (map (\<lambda>q. basis_gates (basis_id_of_draw (rand (k + (q - a)))) q) [a..<a + n])),
      k + n)"
proof (induction n arbitrary: a k qb qc)
  case 0
  have "qb = (\<lambda>q. if a \<le> q \<and> q < a then Some (basis_id_of_draw (rand (k + (q - a)))) else qb q)"
    by (rule ext) auto
  then show ?case by simp
next
  case (Suc n)
  have split: "[a..<a + Suc n] = a # [Suc a..<Suc a + n]"
    by (simp add: upt_conv_Cons)
  have gates: "map (\<lambda>q. basis_gates (basis_id_of_draw (rand (Suc k + (q - Suc a)))) q) [Suc a..<Suc a + n]
             = map (\<lambda>q. basis_gates (basis_id_of_draw (rand (k + (q - a)))) q) [Suc a..<Suc a + n]"
  proof (rule map_cong[OF refl])
    fix q assume "q \<in> set [Suc a..<Suc a + n]"
    then have "Suc a \<le> q" by (simp only: set_upt atLeastLessThan_iff)
    then have "Suc k + (q - Suc a) = k + (q - a)" by arith
    then show "basis_gates (basis_id_of_draw (rand (Suc k + (q - Suc a)))) q
             = basis_gates (basis_id_of_draw (rand (k + (q - a)))) q"
      by (simp only:)
  qed
  have bases: "(\<lambda>q. if Suc a \<le> q \<and> q < Suc a + n
                   then Some (basis_id_of_draw (rand (Suc k + (q - Suc a))))
                   else (qb(a \<mapsto> basis_id_of_draw (rand k))) q)
             = (\<lambda>q. if a \<le> q \<and> q < a + Suc n then Some (basis_id_of_draw (rand (k + (q - a))))
                   else qb q)"
  proof (rule ext)
    fix q
    consider "q < a" | "q = a" | "Suc a \<le> q" "q < a + Suc n" | "a + Suc n \<le> q"
      by linarith
    then show "(if Suc a \<le> q \<and> q < Suc a + n
                   then Some (basis_id_of_draw (rand (Suc k + (q - Suc a))))
                   else (qb(a \<mapsto> basis_id_of_draw (rand k))) q)
             = (if a \<le> q \<and> q < a + Suc n then Some (basis_id_of_draw (rand (k + (q - a))))
                   else qb q)"
    proof cases
      case 3
      then have c: "Suc a \<le> q \<and> q < Suc a + n" "a \<le> q \<and> q < a + Suc n"
        by auto
      have "Suc k + (q - Suc a) = k + (q - a)" using 3(1) by arith
      then show ?thesis by (simp only: c if_True simp_thms)
    qed auto
  qed
  have "basis_loop rand [a..<a + Suc n] k (qb, qc)
      = basis_loop rand [Suc a..<Suc a + n] (Suc k)
          (qb(a \<mapsto> basis_id_of_draw (rand k)), qc @ basis_gates (basis_id_of_draw (rand k)) a)"
    by (simp only: split basis_loop.simps choose_basis_eq)
  also have "\<dots> =
     ((\<lambda>q. if Suc a \<le> q \<and> q < Suc a + n
            then Some (basis_id_of_draw (rand (Suc k + (q - Suc a))))
            else (qb(a \<mapsto> basis_id_of_draw (rand k))) q,
       (qc @ basis_gates (basis_id_of_draw (rand k)) a)
         @ concat (map (\<lambda>q. basis_gates (basis_id_of_draw (rand (Suc k + (q - Suc a)))) q)
                     [Suc a..<Suc a + n])),
      Suc k + n)"
    by (rule Suc.IH)
  also have "\<dots> =
     ((\<lambda>q. if a \<le> q \<and> q < a + Suc n then Some (basis_id_of_draw (rand (k + (q - a)))) else qb q,
       qc @ concat (map (\<lambda>q. basis_gates (basis_id_of_draw (rand (k + (q - a)))) q) [a..<a + Suc n])),
      k + Suc n)"
    unfolding gates bases split by simp
  finally show ?case .
qed

lemma n_pauli_circuit_eq:
  "n_pauli_circuit n rand k =
     ((\<lambda>q. if q < n then Some (basis_id_of_draw (rand (k + q))) else None,
       concat (map (\<lambda>q. basis_gates (basis_id_of_draw (rand (k + q))) q) [0..<n]) @ [Measure_all]),
      k + n)"
  using basis_loop_upt[of rand 0 n k Map.empty "[]"]
  by (simp add: n_pauli_circuit_def cong: if_cong)

lemma thresholds_are_the_doubles:
  "true_divide 1 3 = Inr (6004799503160661 / 2 ^ 54)"
  "true_divide 2 3 = Inr (6004799503160661 / 2 ^ 53)"
  by code_simp+

lemma thresholds_as_reals:
  "of_rat (6004799503160661 / 2 ^ 54) = one_third"
  "of_rat (6004799503160661 / 2 ^ 53) = two_thirds"
  by (simp_all add: one_third_def two_thirds_def of_rat_divide of_rat_power)

lemma thresholds_below_fractions:
  "one_third < 1 / 3" "1 / 3 - one_third < 1 / 2 ^ 55"
  "two_thirds < 2 / 3" "2 / 3 - two_thirds < 1 / 2 ^ 54"
  by (simp_all add: one_third_def two_thirds_def)

text \<open>
  C8. The claim: basis 1 exactly when \<open>1/3 \<le> r < 2/3\<close>. The code compares the draw with
  the doubles \<open>1/3\<close> and \<open>2/3\<close>, which are below the fractions: the draw
  \<open>6004799503160661 / 2\<^sup>5\<^sup>3\<close> (the double \<open>2/3\<close> itself, a number the generator can return) is
  in \<open>[1/3, 2/3)\<close>, and the qubit gets basis 2 and no gate.
\<close>

theorem n_pauli_circuit_threshold_counterexample:
  "(1 / 3 :: real) \<le> 6004799503160661 / 2 ^ 53
   \<and> (6004799503160661 / 2 ^ 53 :: real) < 2 / 3
   \<and> fst (fst (n_pauli_circuit 1 (constant_draws (6004799503160661 / 2 ^ 53)) 0)) 0 = Some 2
   \<and> snd (fst (n_pauli_circuit 1 (constant_draws (6004799503160661 / 2 ^ 53)) 0)) = [Measure_all]"
  by (simp add: n_pauli_circuit_def choose_basis_def constant_draws_def one_third_def
      two_thirds_def)

text \<open>
  C8, amended. In the result of \<open>n_pauli_circuit\<close>, started when \<open>k\<close> numbers have been
  drawn, qubit \<open>qbit\<close> is decided by the draw number \<open>k + qbit\<close> alone: its basis is 0, with
  a Hadamard gate, exactly when the draw is below the double \<open>1/3\<close>; 1, with \<open>S\<^sup>\<dagger>\<close> and
  then a Hadamard gate, exactly when it is at least the double \<open>1/3\<close> and below the double
  \<open>2/3\<close>; and 2, with no gate, otherwise. Every qubit below \<open>n\<close> gets a basis and \<open>n\<close>
  numbers are drawn.
\<close>

theorem n_pauli_circuit_bases:
  assumes "n_pauli_circuit n rand k = ((qbases, qc), k')" and "qbit < n"
  shows "(qbases qbit = Some 0 \<longleftrightarrow> rand (k + qbit) < 6004799503160661 / 2 ^ 54)
       \<and> (qbases qbit = Some 1 \<longleftrightarrow> 6004799503160661 / 2 ^ 54 \<le> rand (k + qbit)
                                    \<and> rand (k + qbit) < 6004799503160661 / 2 ^ 53)
       \<and> (qbases qbit = Some 2 \<longleftrightarrow> 6004799503160661 / 2 ^ 53 \<le> rand (k + qbit))
       \<and> dom qbases = {0..<n}
       \<and> k' = k + n
       \<and> qc = concat (map (\<lambda>q. basis_gates (the (qbases q)) q) [0..<n]) @ [Measure_all]"
proof -
  from assms(1) have qb: "qbases = (\<lambda>q. if q < n then Some (basis_id_of_draw (rand (k + q))) else None)"
    and qc: "qc = concat (map (\<lambda>q. basis_gates (basis_id_of_draw (rand (k + q))) q) [0..<n]) @ [Measure_all]"
    and k': "k' = k + n"
    by (simp_all add: n_pauli_circuit_eq)
  have "map (\<lambda>q. basis_gates (basis_id_of_draw (rand (k + q))) q) [0..<n]
      = map (\<lambda>q. basis_gates (the (qbases q)) q) [0..<n]"
    by (rule map_cong) (simp_all add: qb)
  with qc have "qc = concat (map (\<lambda>q. basis_gates (the (qbases q)) q) [0..<n]) @ [Measure_all]"
    by simp
  moreover have "dom qbases = {0..<n}"
    by (auto simp: qb dom_def)
  moreover have "(qbases qbit = Some 0 \<longleftrightarrow> rand (k + qbit) < 6004799503160661 / 2 ^ 54)"
    "(qbases qbit = Some 1 \<longleftrightarrow> 6004799503160661 / 2 ^ 54 \<le> rand (k + qbit)
                                \<and> rand (k + qbit) < 6004799503160661 / 2 ^ 53)"
    "(qbases qbit = Some 2 \<longleftrightarrow> 6004799503160661 / 2 ^ 53 \<le> rand (k + qbit))"
    using assms(2) by (auto simp: qb basis_id_of_draw_def one_third_def two_thirds_def)
  ultimately show ?thesis using k' by blast
qed

theorem n_pauli_circuit_bases_witness:
  "(1 :: nat) < 3
   \<and> fst (fst (n_pauli_circuit 3 (\<lambda>k. [1 / 4, 1 / 2, 3 / 4] ! k) 0)) 1 = Some 1
   \<and> snd (n_pauli_circuit 3 (\<lambda>k. [1 / 4, 1 / 2, 3 / 4] ! k) 0) = 3
   \<and> snd (fst (n_pauli_circuit 3 (\<lambda>k. [1 / 4, 1 / 2, 3 / 4] ! k) 0)) = [H 0, Sdg 1, H 1, Measure_all]"
proof -
  define R where "R = n_pauli_circuit 3 (\<lambda>k. [1 / 4, 1 / 2, 3 / 4] ! k) 0"
  have h: "R = ((fst (fst R), snd (fst R)), snd R)" by simp
  have l: "(1 :: nat) < 3" by simp
  note T = n_pauli_circuit_bases[OF h[unfolded R_def] l]
  have b: "fst (fst R) 1 = Some 1" using T by (simp add: R_def)
  have b0: "fst (fst R) 0 = Some 0"
    using n_pauli_circuit_bases[OF h[unfolded R_def], of 0] by (simp add: R_def)
  have b2: "fst (fst R) 2 = Some 2"
    using n_pauli_circuit_bases[OF h[unfolded R_def], of 2] by (simp add: R_def)
  have "snd (fst R) = concat (map (\<lambda>q. basis_gates (the (fst (fst R) q)) q) [0..<3]) @ [Measure_all]"
    using T by (simp add: R_def)
  also have "[0..<3] = [0, 1, 2]" by (simp add: upt_rec)
  finally have g: "snd (fst R) = [H 0, Sdg 1, H 1, Measure_all]"
    using b b0 b2 by (simp add: basis_gates_def)
  have "snd R = 3" using T by (simp add: R_def)
  with l b g show ?thesis unfolding R_def by simp
qed

section \<open>The median\<close>

lemma sorted_Re_sort_key: "sorted (map Re (sort_key (\<lambda>z. (Re z, Im z)) a))"
proof -
  have "sorted (map (\<lambda>z. (Re z, Im z)) (sort_key (\<lambda>z. (Re z, Im z)) a))"
    by (rule sorted_sort_key)
  then have "sorted_wrt (\<lambda>x y. (Re x, Im x) \<le> (Re y, Im y)) (sort_key (\<lambda>z. (Re z, Im z)) a)"
    by (simp add: sorted_map)
  then have "sorted_wrt (\<lambda>x y. Re x \<le> Re y) (sort_key (\<lambda>z. (Re z, Im z)) a)"
    by (rule sorted_wrt_mono_rel[rotated]) (auto simp: less_eq_prod_def)
  then show ?thesis by (simp add: sorted_map)
qed

lemma map_Re_sort_key: "map Re (sort_key (\<lambda>z. (Re z, Im z)) a) = sort (map Re a)"
proof -
  have "mset (map Re (sort_key (\<lambda>z. (Re z, Im z)) a)) = mset (map Re a)"
    by simp
  from properties_for_sort[OF this sorted_Re_sort_key] show ?thesis by simp
qed

lemma median_index_bounds:
  "0 < (k::nat) \<Longrightarrow> k div 2 < k" "0 < k \<Longrightarrow> k div 2 - Suc 0 < k"
  by auto

lemma Re_median_of_sorted:
  "s \<noteq> [] \<Longrightarrow> Re (median_of_sorted s) = median_of_sorted (map Re s)"
  by (simp add: median_of_sorted_def median_index_bounds)

lemma np_median_sorted:
  assumes "a \<noteq> []"
  shows "np_median a = Some (median_of_sorted (sort_key (\<lambda>z. (Re z, Im z)) a))"
proof -
  have "odd (length a) \<Longrightarrow> (length a - 1) div 2 = length a div 2"
    by (auto elim: oddE)
  then show ?thesis
    using assms by (auto simp: np_median_def median_of_sorted_def Let_def even_iff_mod_2_eq_zero)
qed

lemma Re_np_median:
  assumes "a \<noteq> []"
  shows "map_option Re (np_median a) = Some (median_of_sorted (sort (map Re a)))"
proof -
  have "sort_key (\<lambda>z. (Re z, Im z)) a \<noteq> []"
    using assms by (metis length_sort length_0_conv)
  then show ?thesis
    by (simp add: np_median_sorted[OF assms] Re_median_of_sorted map_Re_sort_key)
qed

text \<open>
  C6. For a non-empty list of estimators, the prediction is the real part of the median
  of the values of the functional: of the middle value, or of the mean of the two middle
  values, of any arrangement \<open>s\<close> of the values that is sorted by real part. Nothing
  else is done to the value: it is not clamped.
\<close>

theorem prediction_is_real_part_of_median:
  assumes "estimators \<noteq> []"
    and "mset s = mset (map (state_fidelity psi) estimators)"
    and "sorted (map Re s)"
  shows "get_fidelity_prediction state_fidelity estimators psi = Some (Re (median_of_sorted s))"
proof -
  let ?a = "map (state_fidelity psi) estimators"
  have a: "?a \<noteq> []" using assms(1) by simp
  have s: "s \<noteq> []" using assms(2) a by auto
  have "mset (map Re s) = mset (map Re ?a)"
    using assms(2) by (metis mset_map)
  from properties_for_sort[OF this assms(3)] have "sort (map Re ?a) = map Re s" .
  with Re_np_median[OF a] show ?thesis
    by (simp add: get_fidelity_prediction_def Re_median_of_sorted[OF s])
qed

theorem prediction_is_real_part_of_median_witness:
  "get_fidelity_prediction (\<lambda>psi rho. hd (hd rho)) [[[3 / 2]], [[1]], [[5 / 4]], [[9 / 10]]] ()
     = Some (9 / 8) \<and> (1 :: real) < 9 / 8"
proof -
  have h1: "[[[3 / 2]], [[1]], [[5 / 4]], [[9 / 10 :: complex]]] \<noteq> []"
    by simp
  have h2: "mset [9 / 10, 1, 5 / 4, 3 / 2 :: complex]
      = mset (map ((\<lambda>psi rho. hd (hd rho)) ()) [[[3 / 2]], [[1]], [[5 / 4]], [[9 / 10]]])"
    by simp
  have h3: "sorted (map Re [9 / 10, 1, 5 / 4, 3 / 2 :: complex])"
    by simp
  have "Re (median_of_sorted [9 / 10, 1, 5 / 4, 3 / 2 :: complex]) = 9 / 8"
    by (simp add: median_of_sorted_def)
  with prediction_is_real_part_of_median[OF h1 h2 h3] show ?thesis
    by simp
qed

subsection \<open>Counting the values below and above a bound\<close>

lemma sorted_count_below:
  assumes "sorted s" "p < length s" "s ! p < (lo::real)"
  shows "p + 1 \<le> length (filter (\<lambda>x. x < lo) s)"
proof -
  have all: "\<forall>x\<in>set (take (p + 1) s). x < lo"
  proof
    fix x assume "x \<in> set (take (p + 1) s)"
    then obtain i where "i < p + 1" "i < length s" "x = s ! i"
      by (auto simp: in_set_conv_nth)
    then have "x \<le> s ! p" using assms(1,2) by (simp add: sorted_nth_mono)
    with assms(3) show "x < lo" by simp
  qed
  have "length (filter (\<lambda>x. x < lo) s)
      = length (filter (\<lambda>x. x < lo) (take (p + 1) s)) + length (filter (\<lambda>x. x < lo) (drop (p + 1) s))"
    by (metis append_take_drop_id filter_append length_append)
  also have "filter (\<lambda>x. x < lo) (take (p + 1) s) = take (p + 1) s"
    using all by (simp add: filter_id_conv)
  finally show ?thesis using assms(2) by simp
qed

lemma sorted_count_above:
  assumes "sorted s" "p < length s" "(hi::real) < s ! p"
  shows "length s - p \<le> length (filter (\<lambda>x. hi < x) s)"
proof -
  have all: "\<forall>x\<in>set (drop p s). hi < x"
  proof
    fix x assume "x \<in> set (drop p s)"
    then obtain i where "i < length s - p" "x = s ! (p + i)"
      by (auto simp: in_set_conv_nth)
    then have "s ! p \<le> x" using assms(1,2) by (simp add: sorted_nth_mono)
    with assms(3) show "hi < x" by simp
  qed
  have "length (filter (\<lambda>x. hi < x) s)
      = length (filter (\<lambda>x. hi < x) (take p s)) + length (filter (\<lambda>x. hi < x) (drop p s))"
    by (metis append_take_drop_id filter_append length_append)
  also have "filter (\<lambda>x. hi < x) (drop p s) = drop p s"
    using all by (simp add: filter_id_conv)
  finally show ?thesis by simp
qed

lemma median_between:
  assumes "sorted s"
    and lo: "length (filter (\<lambda>x. x < lo) s) + 1 \<le> length s div 2"
    and hi: "length (filter (\<lambda>x. hi < x) s) + 1 \<le> length s div 2"
  shows "lo \<le> median_of_sorted s \<and> median_of_sorted s \<le> (hi::real)"
proof -
  let ?k = "length s"
  have k: "2 \<le> ?k" using lo by linarith
  have low: "lo \<le> s ! p" if "?k div 2 - 1 \<le> p" "p < ?k" for p
  proof (rule ccontr)
    assume "\<not> lo \<le> s ! p"
    then have "p + 1 \<le> length (filter (\<lambda>x. x < lo) s)"
      using sorted_count_below[OF assms(1) that(2)] by simp
    with lo that show False by linarith
  qed
  have high: "s ! p \<le> hi" if "p \<le> ?k div 2" for p
  proof (rule ccontr)
    have p: "p < ?k" using that k by linarith
    assume "\<not> s ! p \<le> hi"
    then have "?k - p \<le> length (filter (\<lambda>x. hi < x) s)"
      using sorted_count_above[OF assms(1) p] by simp
    with hi that k show False by linarith
  qed
  have b1: "lo \<le> s ! (?k div 2)" "lo \<le> s ! (?k div 2 - 1)"
    using k by (auto intro!: low)
  have b2: "s ! (?k div 2) \<le> hi" "s ! (?k div 2 - 1) \<le> hi"
    by (auto intro!: high)
  show ?thesis
    using b1 b2 by (auto simp: median_of_sorted_def)
qed

lemma count_filter_sort:
  "length (filter P (sort (l::real list))) = length (filter P l)"
  by (simp add: filter_sort)

lemma count_le_card:
  assumes "finite B" "\<forall>i<length l. i \<notin> B \<longrightarrow> \<not> P (l ! i)"
  shows "length (filter P l) \<le> card B"
proof -
  have "length (filter P l) = card {i. i < length l \<and> P (l ! i)}"
    by (rule length_filter_conv_card)
  also have "\<dots> \<le> card B"
    using assms by (intro card_mono) auto
  finally show ?thesis .
qed

lemma median_within_bounds:
  assumes len: "length zs = K"
    and B: "B \<subseteq> {..<K}"
    and few: "card B + 1 \<le> K div 2"
    and good: "\<forall>i<K. i \<notin> B \<longrightarrow> lo \<le> Re (zs ! i) \<and> Re (zs ! i) \<le> hi"
  shows "\<exists>p. map_option Re (np_median zs) = Some p \<and> lo \<le> p \<and> p \<le> hi"
proof -
  have fin: "finite B" using B by (rule finite_subset) simp
  have ne: "zs \<noteq> []" using len few by auto
  let ?l = "map Re zs"
  have "length (filter (\<lambda>x. x < lo) ?l) \<le> card B"
    using good len by (intro count_le_card[OF fin]) auto
  then have c1: "length (filter (\<lambda>x. x < lo) (sort ?l)) + 1 \<le> length (sort ?l) div 2"
    using few len by (simp add: count_filter_sort)
  have "length (filter (\<lambda>x. hi < x) ?l) \<le> card B"
    using good len by (intro count_le_card[OF fin]) auto
  then have c2: "length (filter (\<lambda>x. hi < x) (sort ?l)) + 1 \<le> length (sort ?l) div 2"
    using few len by (simp add: count_filter_sort)
  have "lo \<le> median_of_sorted (sort ?l) \<and> median_of_sorted (sort ?l) \<le> hi"
    by (rule median_between[OF _ c1 c2]) simp
  with Re_np_median[OF ne] show ?thesis by blast
qed

lemma median_robust_values:
  fixes xs ys :: "complex list"
  assumes len: "length ys = length xs"
    and B: "B \<subseteq> {..<length xs}"
    and few: "card B + 1 \<le> length xs div 2"
    and same: "\<forall>i<length xs. i \<notin> B \<longrightarrow> ys ! i = xs ! i"
  shows "\<exists>p p'. map_option Re (np_median xs) = Some p \<and> map_option Re (np_median ys) = Some p'
       \<and> Min ((\<lambda>i. Re (xs ! i)) ` ({..<length xs} - B)) \<le> p'
       \<and> p' \<le> Max ((\<lambda>i. Re (xs ! i)) ` ({..<length xs} - B))
       \<and> Min (Re ` set xs) \<le> p' \<and> p' \<le> Max (Re ` set xs)
       \<and> (\<exists>i<length xs. i \<notin> B \<and> \<bar>p' - p\<bar> \<le> \<bar>Re (xs ! i) - p\<bar>)"
proof -
  let ?K = "length xs"
  let ?good = "(\<lambda>i. Re (xs ! i)) ` ({..<?K} - B)"
  have fin: "finite B" using B by (rule finite_subset) simp
  have "{..<?K} - B \<noteq> {}"
  proof
    assume "{..<?K} - B = {}"
    then have "{..<?K} \<subseteq> B" by blast
    from card_mono[OF fin this] few show False by simp
  qed
  then have gne: "?good \<noteq> {}" by simp
  have gfin: "finite ?good" by simp
  have inrange: "Min ?good \<le> Re (xs ! i) \<and> Re (xs ! i) \<le> Max ?good" if "i < ?K" "i \<notin> B" for i
    using that gfin by (auto intro!: Min_le Max_ge)
  from median_within_bounds[OF refl B few, of "Min ?good" "Max ?good"] inrange
  obtain p where p: "map_option Re (np_median xs) = Some p" "Min ?good \<le> p" "p \<le> Max ?good"
    by blast
  have "\<forall>i<?K. i \<notin> B \<longrightarrow> Min ?good \<le> Re (ys ! i) \<and> Re (ys ! i) \<le> Max ?good"
    using inrange same by simp
  from median_within_bounds[OF len B few this]
  obtain p' where p': "map_option Re (np_median ys) = Some p'" "Min ?good \<le> p'" "p' \<le> Max ?good"
    by blast
  have sub: "?good \<subseteq> Re ` set xs" by auto
  have "Min (Re ` set xs) \<le> Min ?good" "Max ?good \<le> Max (Re ` set xs)"
    using sub gne by (auto intro!: Min_antimono Max_mono)
  with p' have all: "Min (Re ` set xs) \<le> p'" "p' \<le> Max (Re ` set xs)"
    by linarith+
  from Min_in[OF gfin gne] obtain a where a: "a < ?K" "a \<notin> B" "Min ?good = Re (xs ! a)"
    by auto
  from Max_in[OF gfin gne] obtain b where b: "b < ?K" "b \<notin> B" "Max ?good = Re (xs ! b)"
    by auto
  have "\<exists>i<?K. i \<notin> B \<and> \<bar>p' - p\<bar> \<le> \<bar>Re (xs ! i) - p\<bar>"
  proof (cases "p \<le> p'")
    case True
    then have "\<bar>p' - p\<bar> \<le> \<bar>Re (xs ! b) - p\<bar>" using p' p b by linarith
    with b show ?thesis by blast
  next
    case False
    then have "\<bar>p' - p\<bar> \<le> \<bar>Re (xs ! a) - p\<bar>" using p' p a by linarith
    with a show ?thesis by blast
  qed
  then obtain i where i: "i < ?K" "i \<notin> B" "\<bar>p' - p\<bar> \<le> \<bar>Re (xs ! i) - p\<bar>"
    by blast
  show ?thesis
    apply (rule exI[of _ p], rule exI[of _ p'])
    using p p' all i by blast
qed

text \<open>
  C7. Let \<open>xs\<close> be the values of the functional on \<open>K\<close> estimators and \<open>ys\<close> the values
  after the entries at the positions \<open>B\<close>, at most \<open>floor(K / 2) - 1\<close> of them, have been
  replaced by anything. Then both predictions exist, the prediction from \<open>ys\<close> lies
  between the least and the greatest real part of the entries that were not replaced
  (hence of all of \<open>xs\<close>), and it differs from the prediction from \<open>xs\<close> by no more than
  some entry that was not replaced does.
\<close>

theorem median_of_means_robust:
  assumes "map (state_fidelity psi) estimators = xs"
    and "map (state_fidelity psi) estimators' = ys"
    and "length ys = length xs"
    and "B \<subseteq> {..<length xs}"
    and "card B + 1 \<le> length xs div 2"
    and "\<forall>i<length xs. i \<notin> B \<longrightarrow> ys ! i = xs ! i"
  shows "\<exists>p p'. get_fidelity_prediction state_fidelity estimators psi = Some p
       \<and> get_fidelity_prediction state_fidelity estimators' psi = Some p'
       \<and> Min ((\<lambda>i. Re (xs ! i)) ` ({..<length xs} - B)) \<le> p'
       \<and> p' \<le> Max ((\<lambda>i. Re (xs ! i)) ` ({..<length xs} - B))
       \<and> Min (Re ` set xs) \<le> p' \<and> p' \<le> Max (Re ` set xs)
       \<and> (\<exists>i<length xs. i \<notin> B \<and> \<bar>p' - p\<bar> \<le> \<bar>Re (xs ! i) - p\<bar>)"
proof -
  have "get_fidelity_prediction state_fidelity estimators psi = map_option Re (np_median xs)"
    "get_fidelity_prediction state_fidelity estimators' psi = map_option Re (np_median ys)"
    using assms(1,2) by (simp_all add: get_fidelity_prediction_def)
  with median_robust_values[OF assms(3-6)] show ?thesis
    by (simp only:)
qed

theorem median_of_means_robust_witness:
  "\<exists>p p'. get_fidelity_prediction (\<lambda>psi rho. hd (hd rho)) [[[1]], [[2]], [[3]], [[4]]] () = Some p
       \<and> get_fidelity_prediction (\<lambda>psi rho. hd (hd rho)) [[[1]], [[100]], [[3]], [[4]]] () = Some p'
       \<and> Min ((\<lambda>i. Re ([1, 2, 3, 4] ! i)) ` ({..<length [1, 2, 3, 4 :: complex]} - {1})) \<le> p'
       \<and> p' \<le> Max ((\<lambda>i. Re ([1, 2, 3, 4] ! i)) ` ({..<length [1, 2, 3, 4 :: complex]} - {1}))
       \<and> Min (Re ` set [1, 2, 3, 4]) \<le> p' \<and> p' \<le> Max (Re ` set [1, 2, 3, 4])
       \<and> (\<exists>i<length [1, 2, 3, 4 :: complex]. i \<notin> {1} \<and> \<bar>p' - p\<bar> \<le> \<bar>Re ([1, 2, 3, 4] ! i) - p\<bar>)"
proof -
  have h1: "map ((\<lambda>psi rho. hd (hd rho)) ()) [[[1]], [[2]], [[3]], [[4]]] = [1, 2, 3, 4 :: complex]"
    by simp
  have h2: "map ((\<lambda>psi rho. hd (hd rho)) ()) [[[1]], [[100]], [[3]], [[4]]] = [1, 100, 3, 4 :: complex]"
    by simp
  have h3: "length [1, 100, 3, 4 :: complex] = length [1, 2, 3, 4 :: complex]"
    by simp
  have h4: "{1} \<subseteq> {..<length [1, 2, 3, 4 :: complex]}"
    by simp
  have h5: "card {1 :: nat} + 1 \<le> length [1, 2, 3, 4 :: complex] div 2"
    by simp
  have h6: "\<forall>i<length [1, 2, 3, 4 :: complex]. i \<notin> {1} \<longrightarrow> [1, 100, 3, 4 :: complex] ! i = [1, 2, 3, 4] ! i"
  proof (intro allI impI)
    fix i :: nat
    assume "i < length [1, 2, 3, 4 :: complex]" "i \<notin> {1}"
    then have "i = 0 \<or> i = 2 \<or> i = 3" by auto
    then show "[1, 100, 3, 4 :: complex] ! i = [1, 2, 3, 4] ! i"
      by (auto simp: numeral_2_eq_2 numeral_3_eq_3)
  qed
  show ?thesis
    by (rule median_of_means_robust[OF h1 h2 h3 h4 h5 h6])
qed


section \<open>Snapshots in double precision\<close>

text \<open>
  The entries of \<open>H\<close> are the double \<open>0.7071067811865475\<close>, within \<open>2\<^sup>-\<^sup>5\<^sup>3\<close> of \<open>1/\<surd>2\<close>; its
  rounded square is \<open>1/2 - 2\<^sup>-\<^sup>5\<^sup>3\<close>, and three times that, rounded, less 1 is
  \<open>1/2 - 2\<^sup>-\<^sup>5\<^sup>1\<close>.
\<close>

lemma fl_zero: "fl 0 = 0"
  by (simp add: fl_def)

lemma fl_minus: "fl (- x) = - fl x"
  by (cases "x = 0") (auto simp: fl_def split: prod.splits)

lemma sqrt2_f64_nearest: "\<bar>sqrt 2 - of_rat sqrt2_f64\<bar> < 1 / 2 ^ 53"
proof -
  have s: "(of_rat sqrt2_f64 :: real) = 6369051672525773 / 2 ^ 52"
    by (simp add: sqrt2_f64_def of_rat_divide of_rat_power)
  have "(6369051672525773 / 2 ^ 52 - 1 / 2 ^ 53 :: real)\<^sup>2 < 2" by (simp add: power2_eq_square)
  then have a: "6369051672525773 / 2 ^ 52 - 1 / 2 ^ 53 < sqrt 2" by (rule real_less_rsqrt)
  have "2 < (6369051672525773 / 2 ^ 52 + 1 / 2 ^ 53 :: real)\<^sup>2" by (simp add: power2_eq_square)
  then have b: "sqrt 2 < 6369051672525773 / 2 ^ 52 + 1 / 2 ^ 53" by (intro real_less_lsqrt) simp_all
  from a b show ?thesis unfolding s by linarith
qed


lemma hadamard_rounding:
  fixes h p y z :: rat
  assumes "h = 1592262918131443 / 2 ^ 51" "p = 4503599627370495 / 2 ^ 53"
    "y = 3377699720527871 / 2 ^ 51" "z = 1125899906842623 / 2 ^ 51"
  shows "fl (1 / sqrt2_f64) = h" "fl h = h" "fl (h * h) = p" "fl p = p"
    "fl (3 * p) = y" "fl y = y" "fl (y - 1) = z" "fl z = z"
  unfolding assms by code_simp+

lemma small_doubles: "fl 1 = 1" "fl 2 = 2" "fl 3 = 3"
  by code_simp+

lemma getSnapshot_f64_hadamard:
  fixes h p y z :: rat
  assumes "h = 1592262918131443 / 2 ^ 51" "p = 4503599627370495 / 2 ^ 53"
    "y = 3377699720527871 / 2 ^ 51" "z = 1125899906842623 / 2 ^ 51"
  shows "H_f64 = [[h, h], [h, - h]]"
    and "getSnapshot_f64 [[1], [0]] H_f64 1 = Inr [[z, y], [y, z]]"
    and "getSnapshot_f64 [[0], [1]] H_f64 1 = Inr [[z, - y], [- y, z]]"
proof -
  note R = hadamard_rounding[OF assms]
  show H: "H_f64 = [[h, h], [h, - h]]"
    by (simp add: H_f64_def R(1) fl_minus)
  have u: "[0..<2] = [0, Suc 0]" "[0..<Suc 0] = [0]" by (simp_all add: upt_rec)
  show "getSnapshot_f64 [[1], [0]] H_f64 1 = Inr [[z, y], [y, z]]"
    unfolding H
    by (simp add: getSnapshot_f64_def dot_f64_def transpose_f64_def invM_f64_def eye_f64_def
        elementwise_def bdim_def stretch_def ncols_def column_def bind_err_def u R fl_zero fl_minus)
  show "getSnapshot_f64 [[0], [1]] H_f64 1 = Inr [[z, - y], [- y, z]]"
    unfolding H
    by (simp add: getSnapshot_f64_def dot_f64_def transpose_f64_def invM_f64_def eye_f64_def
        elementwise_def bdim_def stretch_def ncols_def column_def bind_err_def u R fl_zero fl_minus)
qed

lemma getSnapshot_f64_identity:
  "getSnapshot_f64 [[0], [1]] (eye_f64 2) 1 = Inr [[- 1, 0], [0, 2]]"
proof -
  have u: "[0..<2] = [0, Suc 0]" "[0..<Suc 0] = [0]" by (simp_all add: upt_rec)
  show ?thesis
    by (simp add: getSnapshot_f64_def dot_f64_def transpose_f64_def invM_f64_def eye_f64_def
        elementwise_def bdim_def stretch_def ncols_def column_def bind_err_def u small_doubles
        fl_zero fl_minus)
qed

lemma bits_f64: "bitToVector_f64 ''0'' = Inr [[1], [0]]" "bitToVector_f64 ''1'' = Inr [[0], [1]]"
  by code_simp+

lemma doubled_entries:
  fixes y z y2 z2 :: rat
  assumes "y = 3377699720527871 / 2 ^ 51" "z = 1125899906842623 / 2 ^ 51"
    "y2 = 3377699720527871 / 2 ^ 50" "z2 = 1125899906842623 / 2 ^ 50"
  shows "fl (y * 2) = y2" "fl (z * 2) = z2" "fl (2 * y) = y2" "fl (2 * z) = z2"
  unfolding assms by code_simp+

lemma kron_f64_factors:
  fixes y z y2 z2 :: rat
  assumes "y = 3377699720527871 / 2 ^ 51" "z = 1125899906842623 / 2 ^ 51"
    "y2 = 3377699720527871 / 2 ^ 50" "z2 = 1125899906842623 / 2 ^ 50"
  shows "kron_f64 [[1]] [[z, - y], [- y, z]] = [[z, - y], [- y, z]]"
    and "kron_f64 [[z, - y], [- y, z]] [[- 1, 0], [0, 2]]
         = [[- z, 0, y, 0], [0, z2, 0, - y2], [y, 0, - z, 0], [0, - y2, 0, z2]]"
proof -
  note R = hadamard_rounding(6,8)[OF refl refl assms(1,2)] doubled_entries[OF assms]
  show "kron_f64 [[1]] [[z, - y], [- y, z]] = [[z, - y], [- y, z]]"
    by (simp add: kron_f64_def R fl_minus)
  show "kron_f64 [[z, - y], [- y, z]] [[- 1, 0], [0, 2]]
         = [[- z, 0, y, 0], [0, z2, 0, - y2], [y, 0, - z, 0], [0, - y2, 0, z2]]"
    by (simp add: kron_f64_def R fl_minus fl_zero)
qed

section \<open>The snapshot of a global measurement\<close>

lemma is_bitstring_Cons:
  "is_bitstring (c # cs) \<longleftrightarrow> (c = CHR ''0'' \<or> c = CHR ''1'') \<and> is_bitstring cs"
  by (simp add: is_bitstring_def)

lemma binary_value_Cons:
  "binary_value (c # cs) = (if c = CHR ''1'' then 1 else 0) * 2 ^ length cs + binary_value cs"
proof -
  have "binary_value (c # cs)
      = (\<Sum>i<Suc (length cs). (if (c # cs) ! i = CHR ''1'' then 1 else 0) * 2 ^ (length cs - i))"
    unfolding binary_value_def by (simp del: sum.lessThan_Suc)
  also have "\<dots> = (if c = CHR ''1'' then 1 else 0) * 2 ^ length cs
      + (\<Sum>i<length cs. (if cs ! i = CHR ''1'' then 1 else 0) * 2 ^ (length cs - Suc i))"
    by (subst sum.lessThan_Suc_shift) simp
  finally show ?thesis by (simp add: binary_value_def)
qed

lemma binary_value_less: "binary_value s < 2 ^ length s"
proof (induction s)
  case Nil
  then show ?case by (simp add: binary_value_def)
next
  case (Cons c cs)
  then show ?case by (simp add: binary_value_Cons)
qed

lemma parse_binary_eq:
  "is_bitstring s \<Longrightarrow> parse_binary acc s = Inr (acc * 2 ^ length s + binary_value s)"
proof (induction s arbitrary: acc)
  case Nil
  then show ?case by (simp add: binary_value_def)
next
  case (Cons c cs)
  then have c: "c = CHR ''0'' \<or> c = CHR ''1''" and cs: "is_bitstring cs"
    by (simp_all add: is_bitstring_Cons)
  from c show ?case
    by (auto simp: Cons.IH[OF cs] binary_digit_def binary_value_Cons algebra_simps)
qed

lemma int_base2_eq:
  "is_bitstring s \<Longrightarrow> s \<noteq> [] \<Longrightarrow> int_base2 s = Inr (binary_value s)"
  by (simp add: int_base2_def parse_binary_eq)

lemma replicate_update_one_hot:
  "k < d \<Longrightarrow> (replicate d (0::complex))[k := 1] = one_hot d k"
  by (rule nth_equalityI) (auto simp: one_hot_def nth_list_update)

lemma bitToVector_eq:
  assumes "is_bitstring s" "s \<noteq> []"
  shows "bitToVector s = Inr (map (\<lambda>x. [x]) (one_hot (2 ^ length s) (binary_value s)))"
  using assms binary_value_less[of s]
  by (simp add: bitToVector_def int_base2_eq bind_err_def replicate_update_one_hot)

lemma length_one_hot: "length (one_hot d k) = d"
  by (simp add: one_hot_def)

lemma sum_list_map2:
  "length xs = length ys \<Longrightarrow>
     sum_list (map2 f xs ys) = (\<Sum>k<length ys. f (xs ! k) (ys ! k) :: complex)"
  by (simp add: sum_list_sum_nth atLeast0LessThan)

lemma ncols_column_vector: "b \<noteq> [] \<Longrightarrow> ncols (map (\<lambda>x. [x]) b) = 1"
  by (cases b) (simp_all add: ncols_def)

lemma ncols_single: "ncols [r] = length r"
  by (simp add: ncols_def)

lemma column_column_vector: "column (map (\<lambda>x. [x]) b) 0 = b"
  by (simp add: column_def comp_def)

lemma dot_column_vector:
  assumes U: "is_mat r c U" and r: "0 < r" and b: "length b = c" "0 < c"
  shows "dot U (map (\<lambda>x. [x]) b) = Inr (map (\<lambda>x. [x]) (apply_to_ket U b))"
proof -
  have nc: "ncols U = c" using U r by (rule ncols_is_mat)
  have bne: "b \<noteq> []" using b by auto
  have rows: "\<And>row. row \<in> set U \<Longrightarrow> length row = length b"
    using U b by (simp add: is_mat_iff)
  have "map (\<lambda>row. map (\<lambda>j. sum_list (map2 (*) row (column (map (\<lambda>x. [x]) b) j))) [0..<1]) U
      = map (\<lambda>x. [x]) (apply_to_ket U b)"
    by (simp add: apply_to_ket_def column_column_vector comp_def sum_list_map2 rows cong: map_cong)
  then show ?thesis
    by (simp add: dot_def nc b ncols_column_vector[OF bne])
qed

lemma conjT_column_vector: "v \<noteq> [] \<Longrightarrow> conjT (map (\<lambda>x. [x]) v) = [map cnj v]"
  by (simp add: conjT_def ncols_column_vector column_column_vector)

lemma dot_outer:
  assumes "v \<noteq> []"
  shows "dot (map (\<lambda>x. [x]) v) (conjT (map (\<lambda>x. [x]) v))
       = Inr (map (\<lambda>x. map (\<lambda>j. x * cnj (v ! j)) [0..<length v]) v)"
proof -
  have "map (\<lambda>j. sum_list (map2 (*) [x] (column [map cnj v] j))) [0..<length v]
      = map (\<lambda>j. x * cnj (v ! j)) [0..<length v]" for x
    by (rule map_cong) (simp_all add: column_def)
  then show ?thesis
    using assms
    by (simp add: conjT_column_vector dot_def ncols_column_vector ncols_single comp_def)
qed

lemma is_mat_eye: "is_mat d d (eye d)"
  by (simp add: is_mat_iff eye_def)

lemma is_mat_scale: "is_mat r c A \<Longrightarrow> is_mat r c (scale z A)"
  by (auto simp: is_mat_iff scale_def)

lemma invM_outer:
  assumes "length v = 2 ^ n"
  shows "invM (map (\<lambda>x. map (\<lambda>j. x * cnj (v ! j)) [0..<length v]) v) n
       = Inr (inverse_channel (2 ^ n) v)"
proof -
  let ?d = "2 ^ n :: nat"
  let ?M = "map (\<lambda>x. map (\<lambda>j. x * cnj (v ! j)) [0..<length v]) v"
  have M: "is_mat ?d ?d (scale (2 ^ n + 1) ?M)"
    using assms by (intro is_mat_scale) (simp add: is_mat_iff)
  have "map2 (map2 (-)) (scale (2 ^ n + 1) ?M) (eye ?d) = inverse_channel ?d v"
  proof (rule nth_equalityI)
    show "length (map2 (map2 (-)) (scale (2 ^ n + 1) ?M) (eye ?d)) = length (inverse_channel ?d v)"
      using assms by (simp add: scale_def eye_def inverse_channel_def)
  next
    fix i assume "i < length (map2 (map2 (-)) (scale (2 ^ n + 1) ?M) (eye ?d))"
    then have i: "i < ?d" using assms by (simp add: scale_def eye_def)
    show "map2 (map2 (-)) (scale (2 ^ n + 1) ?M) (eye ?d) ! i = inverse_channel ?d v ! i"
    proof (rule nth_equalityI)
      show "length (map2 (map2 (-)) (scale (2 ^ n + 1) ?M) (eye ?d) ! i)
          = length (inverse_channel ?d v ! i)"
        using i assms by (simp add: scale_def eye_def inverse_channel_def)
    next
      fix j assume "j < length (map2 (map2 (-)) (scale (2 ^ n + 1) ?M) (eye ?d) ! i)"
      then have j: "j < ?d" using i assms by (simp add: scale_def eye_def)
      show "map2 (map2 (-)) (scale (2 ^ n + 1) ?M) (eye ?d) ! i ! j = inverse_channel ?d v ! i ! j"
        using i j assms by (simp add: scale_def eye_def inverse_channel_def)
    qed
  qed
  with elementwise_same_shape[OF M is_mat_eye, of "(-)"] show ?thesis
    by (simp add: invM_def np_sub_def)
qed

lemma length_apply_to_ket: "length (apply_to_ket U b) = length U"
  by (simp add: apply_to_ket_def)

lemma getSnapshot_column_vector:
  assumes U: "is_mat (2 ^ n) (2 ^ n) U" and b: "length b = 2 ^ n"
  shows "getSnapshot (map (\<lambda>x. [x]) b) U n = Inr (inverse_channel (2 ^ n) (apply_to_ket U b))"
proof -
  have len: "length (apply_to_ket U b) = 2 ^ n"
    using U by (simp add: length_apply_to_ket is_mat_iff)
  then have ne: "apply_to_ket U b \<noteq> []" by auto
  have pos: "0 < (2::nat) ^ n" by simp
  have d: "dot U (map (\<lambda>x. [x]) b) = Inr (map (\<lambda>x. [x]) (apply_to_ket U b))"
    by (rule dot_column_vector[OF U pos b pos])
  show ?thesis
    by (simp add: getSnapshot_def d bind_err_def dot_outer[OF ne] invM_outer[OF len])
qed


lemma mat_eqI:
  assumes "is_mat r c A" "is_mat r c B" "\<And>i j. i < r \<Longrightarrow> j < c \<Longrightarrow> A ! i ! j = B ! i ! j"
  shows "A = B"
proof (rule nth_equalityI)
  show "length A = length B" using assms(1,2) by (simp add: is_mat_iff)
next
  fix i assume i: "i < length A"
  then have ir: "i < r" using assms(1) by (simp add: is_mat_iff)
  have la: "length (A ! i) = c" using assms(1) i by (simp add: is_mat_iff)
  have lb: "length (B ! i) = c" using assms(1,2) i by (simp add: is_mat_iff)
  show "A ! i = B ! i"
    by (rule nth_equalityI) (simp_all add: la lb assms(3)[OF ir])
qed

lemma is_mat_inverse_channel: "is_mat d d (inverse_channel d v)"
  by (simp add: is_mat_iff inverse_channel_def)

lemma inverse_channel_nth:
  "i < d \<Longrightarrow> j < d \<Longrightarrow>
     inverse_channel d v ! i ! j = (of_nat d + 1) * (v ! i * cnj (v ! j)) - (if i = j then 1 else 0)"
  by (simp add: inverse_channel_def)

lemma is_mat_conjT: "is_mat r c A \<Longrightarrow> 0 < r \<Longrightarrow> is_mat c r (conjT A)"
  by (simp add: is_mat_iff conjT_def column_def ncols_is_mat)

lemma conjT_nth:
  "is_mat r c A \<Longrightarrow> i < r \<Longrightarrow> j < c \<Longrightarrow> conjT A ! j ! i = cnj (A ! i ! j)"
proof -
  assume A: "is_mat r c A" and i: "i < r" and j: "j < c"
  have nc: "ncols A = c" using A i by (intro ncols_is_mat[where r = r]) simp_all
  have "length A = r" using A by (simp add: is_mat_iff)
  then show ?thesis using i j by (simp add: conjT_def column_def nc)
qed

lemma conjT_inverse_channel: "0 < d \<Longrightarrow> conjT (inverse_channel d v) = inverse_channel d v"
proof (rule mat_eqI[where r = d and c = d])
  assume d: "0 < d"
  show "is_mat d d (conjT (inverse_channel d v))"
    using is_mat_inverse_channel d by (rule is_mat_conjT)
  show "is_mat d d (inverse_channel d v)" by (rule is_mat_inverse_channel)
  fix i j assume ij: "i < d" "j < d"
  have "conjT (inverse_channel d v) ! i ! j = cnj (inverse_channel d v ! j ! i)"
    using is_mat_inverse_channel ij(2,1) by (rule conjT_nth)
  also have "\<dots> = inverse_channel d v ! i ! j"
    using ij by (auto simp: inverse_channel_nth)
  finally show "conjT (inverse_channel d v) ! i ! j = inverse_channel d v ! i ! j" .
qed

lemma trace_square: "is_mat d d A \<Longrightarrow> trace A = (\<Sum>i<d. A ! i ! i)"
proof (cases "d = 0")
  case True
  assume "is_mat d d A"
  with True show ?thesis by (simp add: trace_def is_mat_iff)
next
  case False
  assume A: "is_mat d d A"
  then have "ncols A = d" "length A = d"
    using False by (simp_all add: ncols_is_mat is_mat_iff)
  then show ?thesis by (simp add: trace_def)
qed

lemma trace_inverse_channel:
  assumes "(\<Sum>i<d. v ! i * cnj (v ! i)) = 1"
  shows "trace (inverse_channel d v) = 1"
proof -
  have "trace (inverse_channel d v) = (\<Sum>i<d. (of_nat d + 1) * (v ! i * cnj (v ! i)) - 1)"
    by (simp add: trace_square[OF is_mat_inverse_channel] inverse_channel_nth)
  also have "\<dots> = (of_nat d + 1) * (\<Sum>i<d. v ! i * cnj (v ! i)) - of_nat d"
    by (simp add: sum_subtractf sum_distrib_left)
  finally show ?thesis by (simp add: assms)
qed

lemma apply_to_one_hot:
  assumes "i < length U" "k < d"
  shows "apply_to_ket U (one_hot d k) ! i = U ! i ! k"
proof -
  have "(\<Sum>k'<d. U ! i ! k' * one_hot d k ! k') = (\<Sum>k'<d. if k' = k then U ! i ! k' else 0)"
    by (rule sum.cong) (simp_all add: one_hot_def)
  also have "\<dots> = U ! i ! k" using assms(2) by simp
  finally show ?thesis using assms(1) by (simp add: apply_to_ket_def length_one_hot)
qed

lemma unitary_column_norm:
  assumes "unitary d U" "k < d"
  shows "(\<Sum>i<d. U ! i ! k * cnj (U ! i ! k)) = 1"
proof -
  from assms(1) have U: "is_mat d d U" and eq: "mat_mult (conjT U) U = eye d"
    by (simp_all add: unitary_def)
  have d: "0 < d" using assms(2) by simp
  have len: "length U = d" "ncols U = d" "length (conjT U) = d"
    using U d is_mat_conjT[OF U d] by (simp_all add: is_mat_iff ncols_is_mat)
  have "mat_mult (conjT U) U ! k ! k = (\<Sum>i<d. conjT U ! k ! i * U ! i ! k)"
    using assms(2) by (simp add: mat_mult_def len)
  also have "\<dots> = (\<Sum>i<d. U ! i ! k * cnj (U ! i ! k))"
    by (rule sum.cong) (simp_all add: conjT_nth[OF U _ assms(2)] mult.commute)
  finally show ?thesis using assms(2) by (simp add: eq eye_def)
qed

lemma global_snapshot_spec_props:
  assumes "unitary (2 ^ n) U"
  shows "conjT (global_snapshot_spec n outcome U) = global_snapshot_spec n outcome U"
    and "length outcome = n \<Longrightarrow> trace (global_snapshot_spec n outcome U) = 1"
proof -
  show "conjT (global_snapshot_spec n outcome U) = global_snapshot_spec n outcome U"
    by (simp add: global_snapshot_spec_def conjT_inverse_channel)
next
  assume n: "length outcome = n"
  let ?k = "binary_value outcome"
  have k: "?k < 2 ^ n" using binary_value_less[of outcome] n by simp
  have len: "length U = 2 ^ n" using assms by (simp add: unitary_def is_mat_iff)
  have "(\<Sum>i<2 ^ n. apply_to_ket U (one_hot (2 ^ n) ?k) ! i * cnj (apply_to_ket U (one_hot (2 ^ n) ?k) ! i))
      = (\<Sum>i<2 ^ n. U ! i ! ?k * cnj (U ! i ! ?k))"
    by (rule sum.cong) (simp_all add: apply_to_one_hot len k)
  also have "\<dots> = 1" using assms k by (rule unitary_column_norm)
  finally show "trace (global_snapshot_spec n outcome U) = 1"
    unfolding global_snapshot_spec_def by (rule trace_inverse_channel)
qed




lemma sum_upto_2: "(\<Sum>k<(2::nat). f k) = f 0 + (f 1 :: complex)"
  by (simp add: numeral_2_eq_2)

lemma upt_2: "[0..<2] = [0, 1]"
  by (simp add: numeral_2_eq_2)






section \<open>The Kronecker product\<close>

lemma length_concat_uniform:
  "\<forall>xs\<in>set xss. length xs = q \<Longrightarrow> length (concat xss) = length xss * q"
  by (induction xss) simp_all

lemma concat_nth_uniform:
  assumes "\<forall>xs\<in>set xss. length xs = q" "t < length xss * q"
  shows "concat xss ! t = xss ! (t div q) ! (t mod q)"
  using assms
proof (induction xss arbitrary: t)
  case Nil
  then show ?case by simp
next
  case (Cons xs xss)
  have q: "0 < q" using Cons.prems(2) by (cases q) simp_all
  have len: "length xs = q" using Cons.prems(1) by simp
  show ?case
  proof (cases "t < q")
    case True
    then show ?thesis by (simp add: nth_append len)
  next
    case False
    then have t: "t - q < length xss * q" using Cons.prems(2) by simp
    have "concat (xs # xss) ! t = concat xss ! (t - q)"
      using False by (simp add: nth_append len)
    also have "\<dots> = xss ! ((t - q) div q) ! ((t - q) mod q)"
      using Cons.prems(1) t by (intro Cons.IH) simp_all
    also have "\<dots> = (xs # xss) ! (t div q) ! (t mod q)"
      using False q by (simp add: le_div_geq le_mod_geq)
    finally show ?thesis .
  qed
qed

lemma div_less_mult: "t < r * q \<Longrightarrow> t div q < (r::nat)"
  by (simp add: less_mult_imp_div_less)

lemma mod_less_mult: "t < r * q \<Longrightarrow> t mod q < (q::nat)"
  by (cases q) simp_all

lemma length_kron_row:
  "length rb = c' \<Longrightarrow>
     length (concat (map (\<lambda>a. map (\<lambda>b. a * (b::complex)) rb) ra)) = length ra * c'"
  using length_concat_uniform[of "map (\<lambda>a. map (\<lambda>b. a * b) rb) ra" c'] by simp

lemma kron_row_nth:
  assumes "length rb = c'" "u < length ra * c'"
  shows "concat (map (\<lambda>a. map (\<lambda>b. a * b) rb) ra) ! u = ra ! (u div c') * rb ! (u mod c' :: nat)"
proof -
  let ?xss = "map (\<lambda>a. map (\<lambda>b. a * b) rb) ra"
  have u: "\<forall>xs\<in>set ?xss. length xs = c'" using assms(1) by simp
  have "concat ?xss ! u = ?xss ! (u div c') ! (u mod c')"
    using u assms(2) by (intro concat_nth_uniform) simp_all
  then show "concat ?xss ! u = ra ! (u div c') * rb ! (u mod c')"
    using assms div_less_mult[OF assms(2)] mod_less_mult[OF assms(2)] by simp
qed

lemma kron_nth_row:
  assumes "t < length A * length B"
  shows "kron A B ! t
       = concat (map (\<lambda>a. map (\<lambda>b. a * b) (B ! (t mod length B))) (A ! (t div length B)))"
proof -
  let ?xss = "map (\<lambda>ra. map (\<lambda>rb. concat (map (\<lambda>a. map (\<lambda>b. a * b) rb) ra)) B) A"
  have u: "\<forall>xs\<in>set ?xss. length xs = length B" by simp
  have "concat ?xss ! t = ?xss ! (t div length B) ! (t mod length B)"
    using u assms by (intro concat_nth_uniform) simp_all
  then show ?thesis
    using div_less_mult[OF assms] mod_less_mult[OF assms] by (simp add: kron_def)
qed

lemma length_kron: "length (kron A B) = length A * length B"
proof -
  let ?xss = "map (\<lambda>ra. map (\<lambda>rb. concat (map (\<lambda>a. map (\<lambda>b. a * b) rb) ra)) B) A"
  have u: "\<forall>xs\<in>set ?xss. length xs = length B" by simp
  from length_concat_uniform[OF u] show ?thesis by (simp add: kron_def)
qed

lemma is_mat_nth: "is_mat r c A \<Longrightarrow> i < r \<Longrightarrow> length (A ! i) = c"
  by (simp add: is_mat_iff)

lemma is_mat_length: "is_mat r c A \<Longrightarrow> length A = r"
  by (simp add: is_mat_iff)

lemma is_mat_nthI:
  "length A = r \<Longrightarrow> (\<And>i. i < r \<Longrightarrow> length (A ! i) = c) \<Longrightarrow> is_mat r c A"
  by (auto simp: is_mat_iff in_set_conv_nth)

lemma is_mat_kron:
  assumes A: "is_mat r c A" and B: "is_mat r' c' B"
  shows "is_mat (r * r') (c * c') (kron A B)"
proof (rule is_mat_nthI)
  show "length (kron A B) = r * r'"
    using A B by (simp add: length_kron is_mat_length)
next
  fix t assume t: "t < r * r'"
  then have t': "t < length A * length B" using A B by (simp add: is_mat_length)
  have la: "length (A ! (t div r')) = c"
    using A div_less_mult[OF t] by (rule is_mat_nth)
  have lb: "length (B ! (t mod r')) = c'"
    using B mod_less_mult[OF t] by (rule is_mat_nth)
  show "length (kron A B ! t) = c * c'"
    using length_kron_row[OF lb, where ra = "A ! (t div r')"] la
    by (simp add: kron_nth_row[OF t'] is_mat_length[OF B])
qed

lemma kron_nth:
  assumes A: "is_mat r c A" and B: "is_mat r' c' B" and t: "t < r * r'" and u: "u < c * c'"
  shows "kron A B ! t ! u = A ! (t div r') ! (u div c') * B ! (t mod r') ! (u mod c')"
proof -
  have t': "t < length A * length B" using A B t by (simp add: is_mat_length)
  have la: "length (A ! (t div r')) = c"
    using A div_less_mult[OF t] by (rule is_mat_nth)
  have lb: "length (B ! (t mod r')) = c'"
    using B mod_less_mult[OF t] by (rule is_mat_nth)
  have u': "u < length (A ! (t div r')) * c'" using u la by simp
  show ?thesis
    using kron_row_nth[OF lb u']
    by (simp add: kron_nth_row[OF t'] is_mat_length[OF B])
qed

lemma kron_eq_kron_spec:
  assumes A: "is_mat r c A" and B: "is_mat r' c' B" and pos: "0 < r" "0 < r'"
  shows "kron A B = kron_spec A B"
proof (rule mat_eqI[where r = "r * r'" and c = "c * c'"])
  have dims: "length A = r" "length B = r'" "ncols A = c" "ncols B = c'"
    using A B pos by (simp_all add: is_mat_length ncols_is_mat)
  show "is_mat (r * r') (c * c') (kron A B)" using A B by (rule is_mat_kron)
  show "is_mat (r * r') (c * c') (kron_spec A B)"
    by (simp add: is_mat_iff kron_spec_def dims)
  fix i j assume ij: "i < r * r'" "j < c * c'"
  then show "kron A B ! i ! j = kron_spec A B ! i ! j"
    by (simp add: kron_nth[OF A B] kron_spec_def dims)
qed

lemma sum_div_mod:
  "(\<Sum>t<p * q. f (t div q) (t mod q)) = (\<Sum>i<(p::nat). \<Sum>j<(q::nat). f i j :: complex)"
proof (cases "q = 0")
  case True
  then show ?thesis by simp
next
  case False
  have "(\<Sum>t<p * q. f (t div q) (t mod q)) = (\<Sum>m<p. \<Sum>t = m * q..<m * q + q. f (t div q) (t mod q))"
    by (rule sum.nat_group[symmetric])
  also have "\<dots> = (\<Sum>m<p. \<Sum>j<q. f m j)"
  proof (rule sum.cong[OF refl])
    fix m
    have "(\<Sum>t = m * q..<m * q + q. f (t div q) (t mod q))
        = (\<Sum>j = 0..<q. f ((j + m * q) div q) ((j + m * q) mod q))"
      using sum.shift_bounds_nat_ivl[of "\<lambda>t. f (t div q) (t mod q)" 0 "m * q" q]
      by (simp add: add.commute)
    also have "\<dots> = (\<Sum>j = 0..<q. f m j)"
      by (rule sum.cong) (simp_all add: False)
    finally show "(\<Sum>t = m * q..<m * q + q. f (t div q) (t mod q)) = (\<Sum>j<q. f m j)"
      by (simp add: atLeast0LessThan)
  qed
  finally show ?thesis .
qed

lemma trace_kron:
  assumes A: "is_mat p p A" and B: "is_mat q q B"
  shows "trace (kron A B) = trace A * trace B"
proof -
  have "trace (kron A B) = (\<Sum>t<p * q. kron A B ! t ! t)"
    using is_mat_kron[OF A B] by (rule trace_square)
  also have "\<dots> = (\<Sum>t<p * q. A ! (t div q) ! (t div q) * B ! (t mod q) ! (t mod q))"
    by (rule sum.cong) (simp_all add: kron_nth[OF A B])
  also have "\<dots> = (\<Sum>i<p. \<Sum>j<q. A ! i ! i * B ! j ! j)"
    by (rule sum_div_mod)
  also have "\<dots> = (\<Sum>i<p. A ! i ! i) * (\<Sum>j<q. B ! j ! j)"
    by (simp add: sum_product)
  finally show ?thesis
    by (simp add: trace_square[OF A] trace_square[OF B])
qed


section \<open>The snapshot of a measurement in random Pauli bases\<close>

lemma sqrt2_sq: "complex_of_real (sqrt 2) * complex_of_real (sqrt 2) = 2"
  by (metis of_real_mult of_real_numeral real_sqrt_mult_self abs_numeral)

lemma H_gate_eq: "H_gate = hadamard"
  by (simp add: H_gate_def divide_by_def hadamard_def)

lemma conjT_hadamard: "conjT hadamard = hadamard"
  by (simp add: hadamard_def conjT_def column_def ncols_def upt_2)

lemma basis_0: "basis_unitary_dagger 0 = hadamard"
  by (simp add: basis_unitary_dagger_def conjT_hadamard)

lemma basis_1:
  "basis_unitary_dagger (Suc 0)
     = [[1 / complex_of_real (sqrt 2), 1 / complex_of_real (sqrt 2)],
        [\<i> / complex_of_real (sqrt 2), - \<i> / complex_of_real (sqrt 2)]]"
  by (simp add: basis_unitary_dagger_def hadamard_def s_dagger_def
      mat_mult_def conjT_def column_def ncols_def upt_2 sum_upto_2)

lemma basis_2: "basis_unitary_dagger 2 = [[1, 0], [0, 1]]"
  by (simp add: basis_unitary_dagger_def eye_def upt_2)

lemma dot_S_H: "dot S_gate H_gate = Inr (basis_unitary_dagger (Suc 0))"
  by (simp add: basis_1 dot_def S_gate_def H_gate_eq hadamard_def column_def ncols_def upt_2)

lemma Udgs_eq:
  "Udgs = Inr [basis_unitary_dagger 0, basis_unitary_dagger (Suc 0), basis_unitary_dagger 2]"
  by (simp add: Udgs_def bind_err_def dot_S_H)
     (simp add: H_gate_eq conjT_hadamard basis_unitary_dagger_def)

lemma unitary_basis_0: "unitary 2 (basis_unitary_dagger 0)"
  by (simp add: basis_0 hadamard_def unitary_def is_mat_def mat_mult_def conjT_def column_def
      ncols_def eye_def sum_upto_2 upt_2 sqrt2_sq flip: of_real_mult)

lemma unitary_basis_1: "unitary 2 (basis_unitary_dagger (Suc 0))"
  by (simp add: basis_1 unitary_def is_mat_def mat_mult_def conjT_def column_def
      ncols_def eye_def sum_upto_2 upt_2 sqrt2_sq flip: of_real_mult)

lemma unitary_basis_2: "unitary 2 (basis_unitary_dagger 2)"
  by (simp add: basis_2 unitary_def is_mat_def mat_mult_def conjT_def column_def
      ncols_def eye_def sum_upto_2 upt_2)

lemma unitary_basis: "basis_id \<le> 2 \<Longrightarrow> unitary 2 (basis_unitary_dagger basis_id)"
proof -
  assume "basis_id \<le> 2"
  then consider "basis_id = 0" | "basis_id = 1" | "basis_id = 2" by linarith
  then show ?thesis
    by cases (simp_all add: unitary_basis_0 unitary_basis_1 unitary_basis_2)
qed

lemma is_mat_factor_spec: "is_mat 2 2 (factor_spec basis_id c)"
  unfolding factor_spec_def by (rule is_mat_inverse_channel)

lemma trace_factor_spec:
  assumes "basis_id \<le> 2"
  shows "trace (factor_spec basis_id c) = 1"
proof -
  have "unitary (2 ^ 1) (basis_unitary_dagger basis_id)"
    using unitary_basis[OF assms] by simp
  from global_snapshot_spec_props(2)[OF this, of "[c]"]
  show ?thesis by (simp add: global_snapshot_spec_def factor_spec_def)
qed

lemma pauli_step_eq:
  assumes c: "memory ! pos = CHR ''0'' \<or> memory ! pos = CHR ''1''"
    and q: "qbases pos = Some basis_id" "basis_id \<le> 2"
  shows "pauli_step [basis_unitary_dagger 0, basis_unitary_dagger (Suc 0), basis_unitary_dagger 2]
           qbases memory pos snapshot
       = Inr (kron snapshot (factor_spec basis_id (memory ! pos)))"
proof -
  let ?Us = "[basis_unitary_dagger 0, basis_unitary_dagger (Suc 0), basis_unitary_dagger 2]"
  have bit: "is_bitstring [memory ! pos]"
    using c by (simp add: is_bitstring_def)
  have b: "bitToVector [memory ! pos]
         = Inr (map (\<lambda>x. [x]) (one_hot (2 ^ 1) (binary_value [memory ! pos])))"
    using bitToVector_eq[OF bit] by simp
  have m: "is_mat (2 ^ 1) (2 ^ 1) (basis_unitary_dagger basis_id)"
    using unitary_basis[OF q(2)] by (simp add: unitary_def)
  have g: "getSnapshot (map (\<lambda>x. [x]) (one_hot (2 ^ 1) (binary_value [memory ! pos])))
             (basis_unitary_dagger basis_id) 1
         = Inr (factor_spec basis_id (memory ! pos))"
    using getSnapshot_column_vector[OF m, of "one_hot (2 ^ 1) (binary_value [memory ! pos])"]
    by (simp add: length_one_hot factor_spec_def)
  from q(2) consider "basis_id = 0" | "basis_id = 1" | "basis_id = 2" by linarith
  then show ?thesis
    using g by cases (simp_all add: pauli_step_def b bind_err_def q(1))
qed

lemma pauli_loop_eq:
  assumes "\<forall>pos\<in>set ps. (memory ! pos = CHR ''0'' \<or> memory ! pos = CHR ''1'')
             \<and> (\<exists>basis_id\<le>2. qbases pos = Some basis_id)"
  shows "pauli_loop [basis_unitary_dagger 0, basis_unitary_dagger (Suc 0), basis_unitary_dagger 2]
           qbases memory ps snapshot
       = Inr (foldl kron snapshot (map (\<lambda>pos. factor_spec (the (qbases pos)) (memory ! pos)) ps))"
  using assms
proof (induction ps arbitrary: snapshot)
  case Nil
  then show ?case by simp
next
  case (Cons pos ps)
  then obtain basis_id where q: "qbases pos = Some basis_id" "basis_id \<le> 2"
    and c: "memory ! pos = CHR ''0'' \<or> memory ! pos = CHR ''1''"
    by auto
  have rest: "\<forall>pos\<in>set ps. (memory ! pos = CHR ''0'' \<or> memory ! pos = CHR ''1'')
             \<and> (\<exists>basis_id\<le>2. qbases pos = Some basis_id)"
    using Cons.prems by simp
  show ?case
    using pauli_step_eq[where memory = memory and pos = pos and qbases = qbases
          and basis_id = basis_id, OF c q] Cons.IH[OF rest]
    by (simp add: bind_err_def q(1))
qed

lemma foldl_kron_factors:
  assumes "is_mat p p S" "0 < p" "\<forall>F\<in>set Fs. is_mat 2 2 F"
  shows "foldl kron S Fs = foldl kron_spec S Fs"
    and "is_mat (p * 2 ^ length Fs) (p * 2 ^ length Fs) (foldl kron S Fs)"
    and "trace S = 1 \<Longrightarrow> \<forall>F\<in>set Fs. trace F = 1 \<Longrightarrow> trace (foldl kron S Fs) = 1"
  using assms
proof (induction Fs arbitrary: S p)
  case Nil
  {
    case 1 show ?case by simp
  next
    case 2 then show ?case by simp
  next
    case 3 then show ?case by simp
  }
next
  case (Cons F Fs)
  {
    case 1
    then have F: "is_mat 2 2 F" and Fs: "\<forall>F\<in>set Fs. is_mat 2 2 F" by simp_all
    have k: "is_mat (p * 2) (p * 2) (kron S F)" using 1(1) F by (rule is_mat_kron)
    have e: "kron S F = kron_spec S F"
      using 1(1) F 1(2) by (rule kron_eq_kron_spec) simp
    from Cons.IH(1)[OF k _ Fs] 1(2) show ?case by (simp add: e)
  next
    case 2
    then have F: "is_mat 2 2 F" and Fs: "\<forall>F\<in>set Fs. is_mat 2 2 F" by simp_all
    have k: "is_mat (p * 2) (p * 2) (kron S F)" using 2(1) F by (rule is_mat_kron)
    from Cons.IH(2)[OF k _ Fs] 2(2) show ?case by (simp add: mult.assoc)
  next
    case 3
    then have F: "is_mat 2 2 F" and Fs: "\<forall>F\<in>set Fs. is_mat 2 2 F" by simp_all
    have k: "is_mat (p * 2) (p * 2) (kron S F)" using 3(3) F by (rule is_mat_kron)
    have t: "trace (kron S F) = 1"
      using trace_kron[OF 3(3) F] 3(1,2) by simp
    from Cons.IH(3)[OF t _ k _ Fs] 3(2,4) show ?case by simp
  }
qed


lemma rev_bit:
  assumes "is_bitstring outcome" "pos < length outcome"
  shows "rev outcome ! pos = CHR ''0'' \<or> rev outcome ! pos = CHR ''1''"
proof -
  have "rev outcome ! pos \<in> set outcome"
    using assms(2) by (metis length_rev nth_mem set_rev)
  with assms(1) show ?thesis by (auto simp: is_bitstring_def list_all_iff)
qed

lemma pauli_snapshot_foldl:
  assumes "is_bitstring outcome" "\<forall>q<length outcome. basis q \<in> {Some 0, Some 1, Some 2}"
  shows "pauli_snapshot basis outcome
       = Inr (foldl kron [[1]]
               (map (\<lambda>i. factor_spec (the (basis i)) (rev outcome ! i)) [0..<length outcome]))"
proof -
  have "\<forall>pos\<in>set [0..<length outcome].
          (rev outcome ! pos = CHR ''0'' \<or> rev outcome ! pos = CHR ''1'')
          \<and> (\<exists>basis_id\<le>2. basis pos = Some basis_id)"
  proof
    fix pos assume "pos \<in> set [0..<length outcome]"
    then have p: "pos < length outcome" by simp
    with assms(2) have "basis pos \<in> {Some 0, Some 1, Some 2}" by simp
    then have "\<exists>basis_id\<le>2. basis pos = Some basis_id" by auto
    with rev_bit[OF assms(1) p]
    show "(rev outcome ! pos = CHR ''0'' \<or> rev outcome ! pos = CHR ''1'')
          \<and> (\<exists>basis_id\<le>2. basis pos = Some basis_id)" by simp
  qed
  from pauli_loop_eq[OF this] show ?thesis
    by (simp add: pauli_snapshot_def Udgs_eq bind_err_def)
qed

lemma factors_props:
  assumes "\<forall>q<length outcome. basis q \<in> {Some 0, Some 1, Some 2}"
  shows "\<forall>F\<in>set (map (\<lambda>i. factor_spec (the (basis i)) (rev outcome ! i)) [0..<length outcome]).
           is_mat 2 2 F"
    and "\<forall>F\<in>set (map (\<lambda>i. factor_spec (the (basis i)) (rev outcome ! i)) [0..<length outcome]).
           trace F = 1"
proof -
  show "\<forall>F\<in>set (map (\<lambda>i. factor_spec (the (basis i)) (rev outcome ! i)) [0..<length outcome]).
           is_mat 2 2 F"
    by (auto simp: is_mat_factor_spec)
  show "\<forall>F\<in>set (map (\<lambda>i. factor_spec (the (basis i)) (rev outcome ! i)) [0..<length outcome]).
           trace F = 1"
  proof
    fix F assume "F \<in> set (map (\<lambda>i. factor_spec (the (basis i)) (rev outcome ! i)) [0..<length outcome])"
    then obtain i where i: "i < length outcome" "F = factor_spec (the (basis i)) (rev outcome ! i)"
      by auto
    with assms have "basis i \<in> {Some 0, Some 1, Some 2}" by simp
    then have "the (basis i) \<le> 2" by auto
    then show "trace F = 1" unfolding i(2) by (rule trace_factor_spec)
  qed
qed

lemma is_mat_one: "is_mat 1 1 [[1]]"
  by (simp add: is_mat_def)

lemma trace_one: "trace [[1]] = 1"
  by (simp add: trace_def ncols_def)


text \<open>
  C9. The claim: every factor, and so the snapshot of the shot, has trace exactly 1. In
  the doubles of the program the factor of a qubit measured in basis 0 has not: for the
  digit \<open>1\<close> and the matrix \<open>H\<close> of the source its trace is \<open>1 - 2\<^sup>-\<^sup>5\<^sup>0\<close>, which is the snapshot
  of a shot on one qubit; and with a second qubit measured in basis 2 with digit \<open>1\<close>,
  whose factor has trace 1, the Kronecker product has trace \<open>1 - 2\<^sup>-\<^sup>5\<^sup>0\<close> again.
\<close>

theorem pauli_snapshot_rounded_trace_counterexample:
  "bitToVector_f64 ''1'' = Inr [[0], [1]]
   \<and> getSnapshot_f64 [[0], [1]] H_f64 1
       = Inr [[1125899906842623 / 2 ^ 51, - (3377699720527871 / 2 ^ 51)],
              [- (3377699720527871 / 2 ^ 51), 1125899906842623 / 2 ^ 51]]
   \<and> kron_f64 [[1]] [[1125899906842623 / 2 ^ 51, - (3377699720527871 / 2 ^ 51)],
                     [- (3377699720527871 / 2 ^ 51), 1125899906842623 / 2 ^ 51]]
       = [[1125899906842623 / 2 ^ 51, - (3377699720527871 / 2 ^ 51)],
          [- (3377699720527871 / 2 ^ 51), 1125899906842623 / 2 ^ 51]]
   \<and> trace_f64 [[1125899906842623 / 2 ^ 51, - (3377699720527871 / 2 ^ 51)],
                [- (3377699720527871 / 2 ^ 51), 1125899906842623 / 2 ^ 51]] = 1 - 1 / 2 ^ 50
   \<and> getSnapshot_f64 [[0], [1]] (eye_f64 2) 1 = Inr [[- 1, 0], [0, 2]]
   \<and> kron_f64 [[1125899906842623 / 2 ^ 51, - (3377699720527871 / 2 ^ 51)],
               [- (3377699720527871 / 2 ^ 51), 1125899906842623 / 2 ^ 51]] [[- 1, 0], [0, 2]]
       = [[- (1125899906842623 / 2 ^ 51), 0, 3377699720527871 / 2 ^ 51, 0],
          [0, 1125899906842623 / 2 ^ 50, 0, - (3377699720527871 / 2 ^ 50)],
          [3377699720527871 / 2 ^ 51, 0, - (1125899906842623 / 2 ^ 51), 0],
          [0, - (3377699720527871 / 2 ^ 50), 0, 1125899906842623 / 2 ^ 50]]
   \<and> trace_f64 [[- (1125899906842623 / 2 ^ 51), 0, 3377699720527871 / 2 ^ 51, 0],
                [0, 1125899906842623 / 2 ^ 50, 0, - (3377699720527871 / 2 ^ 50)],
                [3377699720527871 / 2 ^ 51, 0, - (1125899906842623 / 2 ^ 51), 0],
                [0, - (3377699720527871 / 2 ^ 50), 0, 1125899906842623 / 2 ^ 50]] = 1 - 1 / 2 ^ 50"
proof -
  have u: "[0..<2] = [0, Suc 0]" "[0..<4] = [0, Suc 0, 2, 3]" by (simp_all add: upt_rec)
  have t1: "trace_f64 [[1125899906842623 / 2 ^ 51, - (3377699720527871 / 2 ^ 51)],
                [- (3377699720527871 / 2 ^ 51), 1125899906842623 / 2 ^ 51]] = 1 - 1 / 2 ^ 50"
    by (simp add: trace_f64_def ncols_def u)
  have t2: "trace_f64 [[- (1125899906842623 / 2 ^ 51), 0, 3377699720527871 / 2 ^ 51, 0],
                [0, 1125899906842623 / 2 ^ 50, 0, - (3377699720527871 / 2 ^ 50)],
                [3377699720527871 / 2 ^ 51, 0, - (1125899906842623 / 2 ^ 51), 0],
                [0, - (3377699720527871 / 2 ^ 50), 0, 1125899906842623 / 2 ^ 50]] = 1 - 1 / 2 ^ 50"
    by (simp add: trace_f64_def ncols_def u)
  from bits_f64(2) getSnapshot_f64_hadamard(3)[OF refl refl refl refl]
    kron_f64_factors[OF refl refl refl refl] t1 t2 getSnapshot_f64_identity
  show ?thesis by (intro conjI)
qed

text \<open>
  C9, amended. In exact arithmetic, that is for the Kronecker product of the matrices
  \<open>3 (U\<^sub>i b\<^sub>i) (U\<^sub>i b\<^sub>i)\<^sup>\<dagger> - I\<close> which the code evaluates in doubles: under the conditions of C3
  the snapshot of the shot is a \<open>2\<^sup>n\<close>-by-\<open>2\<^sup>n\<close> matrix of trace 1, since every factor has
  trace 1 and the trace of a Kronecker product is the product of the traces. (The
  returned array of doubles has trace 1 up to rounding only.)
\<close>

theorem pauli_snapshot_trace_one:
  assumes "1 \<le> n" "length outcome = n" "is_bitstring outcome"
    and "\<forall>q<n. basis q \<in> {Some 0, Some 1, Some 2}"
  shows "\<exists>snapshot. pauli_snapshot basis outcome = Inr snapshot
           \<and> is_mat (2 ^ n) (2 ^ n) snapshot \<and> trace snapshot = 1"
proof -
  have b: "\<forall>q<length outcome. basis q \<in> {Some 0, Some 1, Some 2}"
    using assms(2,4) by simp
  let ?Fs = "map (\<lambda>i. factor_spec (the (basis i)) (rev outcome ! i)) [0..<length outcome]"
  have "is_mat (1 * 2 ^ length ?Fs) (1 * 2 ^ length ?Fs) (foldl kron [[1]] ?Fs)"
    by (rule foldl_kron_factors(2)[OF is_mat_one _ factors_props(1)[OF b]]) simp
  moreover have "trace (foldl kron [[1]] ?Fs) = 1"
    by (rule foldl_kron_factors(3)[OF is_mat_one _ factors_props(1)[OF b] trace_one
          factors_props(2)[OF b]]) simp
  ultimately show ?thesis
    using pauli_snapshot_foldl[OF assms(3) b] assms(2) by simp
qed

lemma upt_4: "[0..<4] = [0, 1, 2, 3]"
  by (simp add: upt_rec)






theorem pauli_snapshot_trace_one_witness:
  "is_bitstring ''10''
   \<and> (\<exists>snapshot. pauli_snapshot [0 \<mapsto> 0, 1 \<mapsto> 1] ''10'' = Inr snapshot
           \<and> is_mat (2 ^ 2) (2 ^ 2) snapshot \<and> trace snapshot = 1)"
proof -
  have a: "(1::nat) \<le> 2" "length ''10'' = 2" "is_bitstring ''10''"
    by (simp_all add: is_bitstring_def)
  have a4: "\<forall>q<2::nat. [0 \<mapsto> 0, 1 \<mapsto> 1 :: nat] q \<in> {Some 0, Some 1, Some 2}"
    by (auto simp: less_Suc_eq numeral_2_eq_2)
  from pauli_snapshot_trace_one[OF a a4] a(3) show ?thesis
    by (intro conjI)
qed


section \<open>The estimators in general\<close>

text \<open>
  For positive \<open>N\<close> and \<open>K\<close> below \<open>2\<^sup>5\<^sup>3\<close> with \<open>m = floor(N / K) \<ge> 1\<close> and snapshots of one
  square shape,
  the estimators are the sums of the consecutive chunks of \<open>m\<close> snapshots, each divided
  by \<open>m\<close>, the last chunk being shorter when \<open>m\<close> does not divide the length of the
  shadow. On a shadow of \<open>N\<close> snapshots there are exactly \<open>K\<close> estimators, each the mean
  of its batch, when \<open>K\<close> divides \<open>N\<close>, and more than \<open>K\<close> otherwise.
\<close>

lemma map2_nth2:
  assumes "is_mat r c A" "is_mat r c B" "i < r" "j < c"
  shows "map2 (map2 f) A B ! i ! j = f (A ! i ! j) (B ! i ! j)"
  using assms by (simp add: is_mat_iff)

lemma fold_add_nth:
  assumes "is_mat r c acc" "\<forall>s\<in>set xs. is_mat r c s" "fold_add acc xs = Inr tot"
    and "i < r" "j < c"
  shows "tot ! i ! j = acc ! i ! j + (\<Sum>s\<leftarrow>xs. s ! i ! j)"
  using assms(1-3)
proof (induction xs arbitrary: acc)
  case Nil
  then show ?case by simp
next
  case (Cons x xs)
  then have x: "is_mat r c x" and xs: "\<forall>s\<in>set xs. is_mat r c s" by simp_all
  have m: "is_mat r c (map2 (map2 (+)) acc x)"
    using Cons.prems(1) x by (rule is_mat_map2)
  have "fold_add (map2 (map2 (+)) acc x) xs = Inr tot"
    using Cons.prems(3) by (simp add: np_add_same_shape[OF Cons.prems(1) x])
  from Cons.IH[OF m xs this]
  show ?case
    by (simp add: map2_nth2[OF Cons.prems(1) x assms(4,5)] add.assoc)
qed

lemma is_mat_batch_mean: "is_mat d d (batch_mean d m batch)"
  by (simp add: is_mat_iff batch_mean_def)

lemma is_mat_divide_by: "is_mat r c A \<Longrightarrow> is_mat r c (divide_by A z)"
  by (auto simp: is_mat_iff divide_by_def)

lemma estimator_of_eq:
  assumes "0 < N" "N < 2 ^ 53" "0 < K" "K < 2 ^ 53" "shade \<noteq> []" "\<forall>s\<in>set shade. is_mat d d s"
  shows "estimator_of N K shade = Inr (batch_mean d (nat (N div K)) shade)"
proof -
  from reduce_add_ok[OF assms(5,6)] obtain tot
    where t: "reduce_add shade = Inr tot" "is_mat d d tot" by blast
  obtain x xs where sh: "shade = x # xs" using assms(5) by (cases shade) auto
  have x: "is_mat d d x" "\<forall>s\<in>set xs. is_mat d d s" using assms(6) sh by simp_all
  have f: "fold_add x xs = Inr tot" using t(1) sh by (simp add: reduce_add_def)
  have q: "0 \<le> N div K" using assms(1,3) by (simp add: pos_imp_zdiv_nonneg_iff)
  have "divide_by tot (of_int (N div K)) = batch_mean d (nat (N div K)) shade"
  proof (rule mat_eqI[where r = d and c = d])
    show "is_mat d d (divide_by tot (of_int (N div K)))"
      using t(2) by (rule is_mat_divide_by)
    show "is_mat d d (batch_mean d (nat (N div K)) shade)"
      by (rule is_mat_batch_mean)
    fix i j assume ij: "i < d" "j < d"
    have "tot ! i ! j = (\<Sum>s\<leftarrow>shade. s ! i ! j)"
      using fold_add_nth[OF x f ij] sh by simp
    moreover have "length tot = d" "length (tot ! i) = d"
      using t(2) ij by (simp_all add: is_mat_iff)
    moreover have "(of_int (N div K) :: complex) = of_nat (nat (N div K))"
      using q by simp
    ultimately show "divide_by tot (of_int (N div K)) ! i ! j
        = batch_mean d (nat (N div K)) shade ! i ! j"
      using ij by (simp add: divide_by_def batch_mean_def)
  qed
  then show ?thesis
    using assms(1-4) by (simp add: estimator_of_def t(1) bind_err_def floor_truediv_pos)
qed

lemma map_err_all_ok:
  "\<forall>x\<in>set xs. f x = Inr (g x) \<Longrightarrow> map_err f xs = Inr (map g xs)"
  by (induction xs) simp_all

lemma get_estimators_eq:
  assumes "0 < N" "N < 2 ^ 53" "0 < K" "K < 2 ^ 53"
    and "1 \<le> N div K" "\<forall>s\<in>set shadow. is_mat d d s"
  shows "get_estimators shadow N K
       = Inr (map (\<lambda>i. batch_mean d (nat (N div K))
                          (take (nat (N div K)) (drop (i * nat (N div K)) shadow)))
                 [0..<(length shadow + nat (N div K) - 1) div nat (N div K)])"
proof -
  let ?m = "nat (N div K)"
  have m: "0 < N div K" using assms(5) by simp
  let ?shades = "map (\<lambda>j. take ?m (drop (j * ?m) shadow)) [0..<(length shadow + ?m - 1) div ?m]"
  have ch: "chunks shadow (N div K) = Inr ?shades"
    using m by (rule chunks_pos)
  have "\<forall>shade\<in>set ?shades. estimator_of N K shade = Inr (batch_mean d ?m shade)"
  proof
    fix shade assume "shade \<in> set ?shades"
    from chunks_pos_props[OF m ch this] assms(6)
    have "shade \<noteq> []" "\<forall>s\<in>set shade. is_mat d d s" by auto
    with assms(1-4) show "estimator_of N K shade = Inr (batch_mean d ?m shade)"
      by (intro estimator_of_eq) simp_all
  qed
  from map_err_all_ok[OF this] show ?thesis
    using assms(1-4) by (simp add: get_estimators_def int_truediv_pos bind_err_def ch comp_def)
qed

lemma get_estimators_when_divisible:
  assumes "0 < N" "N < 2 ^ 53" "0 < K" "K < 2 ^ 53"
    and "K dvd N" "length shadow = nat N" "\<forall>s\<in>set shadow. is_mat d d s"
  shows "get_estimators shadow N K
       = Inr (map (\<lambda>i. batch_mean d (nat (N div K))
                          (take (nat (N div K)) (drop (i * nat (N div K)) shadow)))
                 [0..<nat K])"
proof -
  from assms(5) obtain m where N: "N = K * m" by (auto simp: dvd_def)
  with assms(1,3) have m: "0 < m" by (simp add: zero_less_mult_iff)
  have q: "N div K = m" using N assms(3) by simp
  have "(length shadow + nat m - 1) div nat m = nat K"
  proof -
    have "length shadow = nat K * nat m"
      using assms(6) N assms(3) m by (simp add: nat_mult_distrib)
    moreover have "(nat K * nat m + nat m - 1) div nat m = nat K"
    proof -
      have g: "(k * b + a) div b = k" if "a < b" for k a b :: nat
        using that by simp
      have "nat K * nat m + nat m - 1 = nat K * nat m + (nat m - 1)"
        using m by simp
      moreover have "nat m - 1 < nat m" using m by simp
      ultimately show ?thesis by (simp only: g)
    qed
    ultimately show ?thesis by simp
  qed
  with get_estimators_eq[OF assms(1-4) _ assms(7)] m q show ?thesis by simp
qed

lemma get_estimators_count:
  assumes "0 < N" "N < 2 ^ 53" "0 < K" "K < 2 ^ 53"
    and "1 \<le> N div K" "\<not> K dvd N" "length shadow = nat N"
    and "\<forall>s\<in>set shadow. is_mat d d s" "get_estimators shadow N K = Inr ests"
  shows "nat K < length ests"
proof -
  let ?m = "nat (N div K)"
  have m: "0 < ?m" using assms(5) by simp
  have len: "length ests = (nat N + ?m - 1) div ?m"
    using get_estimators_eq[OF assms(1-5,8)] assms(7,9) by auto
  have "K * (N div K) < N"
  proof -
    have "N mod K \<noteq> 0" using assms(6) by (simp add: dvd_eq_mod_eq_0)
    moreover have "0 \<le> N mod K" using assms(3) by simp
    moreover have "N = K * (N div K) + N mod K" by simp
    ultimately show ?thesis by linarith
  qed
  then have "nat K * ?m < nat N"
    using assms(1,3,5) by (metis nat_mult_distrib nat_mono_iff less_imp_le)
  then have "nat K * ?m + ?m \<le> nat N + ?m - 1" by simp
  then have "(nat K * ?m + ?m) div ?m \<le> (nat N + ?m - 1) div ?m"
    by (rule div_le_mono)
  then show ?thesis using m len by simp
qed

end
